theory Spec2Isabelle
  imports Main "HOL-Library.Sublist"
begin

section \<open>Strings, characters and exceptions\<close>

text \<open>
  A Python \<open>str\<close> is modelled as a \<open>string\<close>, each \<open>char\<close> standing for the code point
  of the same number (U+0000 to U+00FF). The character classes below are Python's on
  that range. The diagnostic \<open>print\<close> calls of the source are not modelled: they do not
  change what a function returns.
\<close>

datatype exn = ValueError string | IOError | UnicodeDecodeError

definition code :: "char \<Rightarrow> nat" where
  "code c = of_char c"

text \<open>\<open>str.lower\<close>, one character at a time.\<close>

definition lower_char :: "char \<Rightarrow> char" where
  "lower_char c =
     (let n = code c
      in if (65 \<le> n \<and> n \<le> 90) \<or> (192 \<le> n \<and> n \<le> 222 \<and> n \<noteq> 215)
         then char_of (n + 32) else c)"

definition lower :: "string \<Rightarrow> string" where
  "lower s = map lower_char s"

text \<open>The class \<open>\s\<close> of a \<open>str\<close> pattern of module \<open>re\<close>.\<close>

definition re_space :: "char \<Rightarrow> bool" where
  "re_space c = (code c \<in> {9, 10, 11, 12, 13, 28, 29, 30, 31, 32, 133, 160})"

text \<open>The white space that \<open>int\<close> skips around a number.\<close>

definition int_space :: "char \<Rightarrow> bool" where
  "int_space c = (code c \<in> {9, 10, 11, 12, 13, 32, 133, 160})"

section \<open>The built-in \<open>int(s, 16)\<close> and the format \<open>{:02x}\<close>\<close>

definition hex_val :: "char \<Rightarrow> nat option" where
  "hex_val c =
     (let n = code c
      in if 48 \<le> n \<and> n \<le> 57 then Some (n - 48)
         else if 97 \<le> n \<and> n \<le> 102 then Some (n - 87)
         else if 65 \<le> n \<and> n \<le> 70 then Some (n - 55)
         else None)"

text \<open>
  The digits of a literal: single underscores may separate digits; a doubled or a
  trailing underscore is an error (\<open>None\<close>). The flag says that the character just read
  was an underscore. The result is the value read and the text left.
\<close>

fun scan_digits :: "int \<Rightarrow> bool \<Rightarrow> string \<Rightarrow> (int \<times> string) option" where
  "scan_digits acc prev [] = (if prev then None else Some (acc, []))"
| "scan_digits acc prev (c # cs) =
     (if c = CHR ''_'' then (if prev then None else scan_digits acc True cs)
      else case hex_val c of
             Some d \<Rightarrow> scan_digits (16 * acc + int d) False cs
           | None \<Rightarrow> (if prev then None else Some (acc, c # cs)))"

definition invalid_literal :: exn where
  "invalid_literal = ValueError ''invalid literal for int() with base 16''"

definition py_int16 :: "string \<Rightarrow> exn + int" where
  "py_int16 s =
     (let s1 = dropWhile int_space s;
          neg = prefix ''-'' s1;
          s2 = (if prefix ''+'' s1 \<or> prefix ''-'' s1 then tl s1 else s1);
          s3 = (if prefix ''0x'' s2 \<or> prefix ''0X'' s2
                then (let r = drop 2 s2 in if prefix ''_'' r then tl r else r)
                else s2)
      in if prefix ''_'' s3 then Inl invalid_literal
         else case scan_digits 0 False s3 of
                None \<Rightarrow> Inl invalid_literal
              | Some (v, rest) \<Rightarrow>
                  if rest = s3 \<or> dropWhile int_space rest \<noteq> [] then Inl invalid_literal
                  else Inr (if neg then - v else v))"

definition hex_digit :: "nat \<Rightarrow> char" where
  "hex_digit d = (if d < 10 then char_of (48 + d) else char_of (87 + d))"

fun to_hex :: "nat \<Rightarrow> string" where
  "to_hex n = (if n < 16 then [hex_digit n] else to_hex (n div 16) @ [hex_digit (n mod 16)])"

declare to_hex.simps [simp del]

text \<open>\<open>'{:02x}'.format(n)\<close>: lowercase digits, zero-padded to width 2, the sign counted.\<close>

definition fmt02x :: "int \<Rightarrow> string" where
  "fmt02x n =
     (if n < 0 then CHR ''-'' # to_hex (nat (- n))
      else let h = to_hex (nat n) in replicate (2 - length h) CHR ''0'' @ h)"

section \<open>Colours\<close>

text \<open>\<open>hex_color.lstrip('#')\<close> drops every leading \<open>#\<close>; a slice past the end is shorter or empty.\<close>

definition lstrip_hash :: "string \<Rightarrow> string" where
  "lstrip_hash s = dropWhile (\<lambda>c. c = CHR ''#'') s"

definition slice2 :: "string \<Rightarrow> nat \<Rightarrow> string" where
  "slice2 s i = take 2 (drop i s)"

definition hex_to_rgb :: "string \<Rightarrow> exn + int list" where
  "hex_to_rgb hex_color =
     (let h = lstrip_hash hex_color
      in case py_int16 (slice2 h 0) of Inl e \<Rightarrow> Inl e | Inr r \<Rightarrow>
         case py_int16 (slice2 h 2) of Inl e \<Rightarrow> Inl e | Inr g \<Rightarrow>
         case py_int16 (slice2 h 4) of Inl e \<Rightarrow> Inl e | Inr b \<Rightarrow> Inr [r, g, b])"

definition rgb_to_hex :: "int list \<Rightarrow> string" where
  "rgb_to_hex rgb = CHR ''#'' # concat (map fmt02x rgb)"

definition color_map :: "(string \<times> string) list" where
  "color_map = [(''black'', ''white''), (''white'', ''black'')]"

definition invert_color :: "string \<Rightarrow> exn + string" where
  "invert_color color =
     (case map_of color_map (lower color) of
        Some mapped \<Rightarrow> Inr mapped
      | None \<Rightarrow>
          if prefix ''#'' color
          then (case hex_to_rgb color of
                  Inl e \<Rightarrow> Inl e
                | Inr rgb \<Rightarrow> Inr (rgb_to_hex (map (\<lambda>c. 255 - c) rgb)))
          else Inr color)"

section \<open>The regular expressions of the pipeline\<close>

text \<open>
  \<open>split_at pat s\<close> finds the first occurrence of \<open>pat\<close> in \<open>s\<close> and gives the text before
  it and the text after it. A lazy \<open>.*?\<close> (with \<open>re.DOTALL\<close>) followed by a literal, and a
  greedy \<open>[^"]*\<close> followed by \<open>"\<close>, both stop at the first occurrence of what follows them.
\<close>

fun split_at :: "string \<Rightarrow> string \<Rightarrow> (string \<times> string) option" where
  "split_at pat [] = (if pat = [] then Some ([], []) else None)"
| "split_at pat (c # cs) =
     (if prefix pat (c # cs) then Some ([], drop (length pat) (c # cs))
      else case split_at pat cs of None \<Rightarrow> None | Some (a, b) \<Rightarrow> Some (c # a, b))"

text \<open>
  A match of \<open><style>(.*?)</style>\<close> at the start of the text: the group and the text
  after the match.
\<close>

definition style_match :: "string \<Rightarrow> (string \<times> string) option" where
  "style_match s = (if prefix ''<style>'' s then split_at ''</style>'' (drop 7 s) else None)"

text \<open>A match of \<open>name="[^"]*"\<close> at the start of the text: the value and the text after.\<close>

definition attr_match :: "string \<Rightarrow> string \<Rightarrow> (string \<times> string) option" where
  \<open>attr_match name s =
     (if prefix (name @ ''="'') s then split_at ''"'' (drop (length name + 2) s) else None)\<close>

text \<open>The lookahead \<open>\s+fill-dark\<close>.\<close>

definition companion_follows :: "string \<Rightarrow> bool" where
  "companion_follows s =
     (takeWhile re_space s \<noteq> [] \<and> prefix ''fill-dark'' (dropWhile re_space s))"

text \<open>A match of \<open>fill="([^"]*)"(?!\s+fill-dark)\<close> at the start of the text.\<close>

definition fill_match :: "string \<Rightarrow> (string \<times> string) option" where
  "fill_match s =
     (case attr_match ''fill'' s of
        None \<Rightarrow> None
      | Some (v, rest) \<Rightarrow> if companion_follows rest then None else Some (v, rest))"

lemma split_at_length:
  "split_at pat s = Some (a, b) \<Longrightarrow> length a + length pat + length b = length s"
proof (induction s arbitrary: a)
  case Nil
  then show ?case by (simp split: if_splits)
next
  case (Cons c cs)
  show ?case
  proof (cases "prefix pat (c # cs)")
    case True
    then obtain z where z: "c # cs = pat @ z"
      by (auto simp: prefix_def)
    from True Cons.prems have "a = []" "b = drop (length pat) (c # cs)"
      by auto
    with z have "a = []" "b = z"
      by auto
    with z show ?thesis
      by (metis add_0 length_append list.size(3))
  next
    case False
    with Cons.prems obtain a' where "split_at pat cs = Some (a', b)" "a = c # a'"
      by (auto split: option.splits)
    with Cons.IH show ?thesis by fastforce
  qed
qed

lemma style_match_shorter: "style_match s = Some (a, b) \<Longrightarrow> length b < length s"
  by (auto simp: style_match_def dest!: split_at_length split: if_splits)

lemma attr_match_shorter: "attr_match name s = Some (a, b) \<Longrightarrow> length b < length s"
  by (auto simp: attr_match_def dest!: split_at_length split: if_splits)

lemma fill_match_shorter: "fill_match s = Some (a, b) \<Longrightarrow> length b < length s"
  by (auto simp: fill_match_def dest: attr_match_shorter split: option.splits if_splits)

text \<open>\<open>re.findall(style_pattern, svg_content, re.DOTALL)\<close>: the groups, left to right.\<close>

function find_styles :: "string \<Rightarrow> string list" where
  "find_styles [] = []"
| "find_styles (c # cs) =
     (case style_match (c # cs) of
        Some (inner, rest) \<Rightarrow> inner # find_styles rest
      | None \<Rightarrow> find_styles cs)"
  by pat_completeness auto
termination
  by (relation "measure length") (auto dest: style_match_shorter)

text \<open>\<open>re.sub(style_pattern, '', svg_content, flags=re.DOTALL)\<close>.\<close>

function remove_styles :: "string \<Rightarrow> string" where
  "remove_styles [] = []"
| "remove_styles (c # cs) =
     (case style_match (c # cs) of
        Some (inner, rest) \<Rightarrow> remove_styles rest
      | None \<Rightarrow> c # remove_styles cs)"
  by pat_completeness auto
termination
  by (relation "measure length") (auto dest: style_match_shorter)

text \<open>\<open>re.sub(r'name="[^"]*"', '', content)\<close>, for the names \<open>fill-dark\<close> and \<open>fill-light\<close>.\<close>

function strip_attr :: "string \<Rightarrow> string \<Rightarrow> string" where
  "strip_attr name [] = []"
| "strip_attr name (c # cs) =
     (case attr_match name (c # cs) of
        Some (v, rest) \<Rightarrow> strip_attr name rest
      | None \<Rightarrow> c # strip_attr name cs)"
  by pat_completeness auto
termination
  by (relation "measure (\<lambda>(name, s). length s)") (auto dest: attr_match_shorter)

text \<open>
  \<open>re.sub(r'fill="([^"]*)"(?!\s+fill-dark)', replace_fill, content)\<close>. The replacement
  function is called at each match in turn, so the first failing \<open>invert_color\<close> ends the
  substitution with its exception.
\<close>

definition replace_fill :: "string \<Rightarrow> exn + string" where
  \<open>replace_fill fill =
     (case invert_color fill of
        Inl e \<Rightarrow> Inl e
      | Inr dark_fill \<Rightarrow> Inr (''fill="'' @ fill @ ''" fill-dark="'' @ dark_fill @ ''"''))\<close>

function rewrite_fills :: "string \<Rightarrow> exn + string" where
  "rewrite_fills [] = Inr []"
| "rewrite_fills (c # cs) =
     (case fill_match (c # cs) of
        Some (fill, rest) \<Rightarrow>
          (case replace_fill fill of
             Inl e \<Rightarrow> Inl e
           | Inr rep \<Rightarrow>
               (case rewrite_fills rest of Inl e \<Rightarrow> Inl e | Inr out \<Rightarrow> Inr (rep @ out)))
      | None \<Rightarrow>
          (case rewrite_fills cs of Inl e \<Rightarrow> Inl e | Inr out \<Rightarrow> Inr (c # out)))"
  by pat_completeness auto
termination
  by (relation "measure length") (auto dest: fill_match_shorter)

section \<open>The pipeline\<close>

definition style_keywords :: "string list" where
  "style_keywords = [''@media'', ''fill:'', ''dark'']"

text \<open>\<open>any(keyword in style.lower() for keyword in [...])\<close>.\<close>

definition has_keyword :: "string \<Rightarrow> bool" where
  "has_keyword style = (\<exists>keyword \<in> set style_keywords. sublist keyword (lower style))"

fun join :: "string \<Rightarrow> string list \<Rightarrow> string" where
  "join sep [] = []"
| "join sep [x] = x"
| "join sep (x # y # ys) = x @ sep @ join sep (y # ys)"

text \<open>\<open>content.find('>')\<close>: the index of the first occurrence, or \<open>-1\<close>.\<close>

fun find_char :: "char \<Rightarrow> string \<Rightarrow> int" where
  "find_char x [] = - 1"
| "find_char x (c # cs) =
     (if c = x then 0 else let i = find_char x cs in if i < 0 then - 1 else i + 1)"

text \<open>
  The reinsertion: \<open>svg_end + 1\<close> is never negative, so both slices count from the
  start; with no \<open>>\<close> in the content the block goes in front of it.
\<close>

definition reinsert :: "string list \<Rightarrow> string \<Rightarrow> string" where
  "reinsert preserved_styles content =
     (if preserved_styles \<noteq> []
      then let style_block = ''<style>'' @ join '' '' preserved_styles @ ''</style>'';
               svg_end = find_char CHR ''>'' content;
               k = nat (svg_end + 1)
           in take k content @ style_block @ drop k content
      else content)"

definition preserved :: "string \<Rightarrow> string list" where
  "preserved svg_content = filter (\<lambda>style. \<not> has_keyword style) (find_styles svg_content)"

definition stripped :: "string \<Rightarrow> string" where
  "stripped svg_content =
     strip_attr ''fill-light'' (strip_attr ''fill-dark'' (remove_styles svg_content))"

definition add_dark_mode_attributes :: "string \<Rightarrow> exn + string" where
  "add_dark_mode_attributes svg_content =
     (case rewrite_fills (stripped svg_content) of
        Inl e \<Rightarrow> Inl e
      | Inr content \<Rightarrow> Inr (reinsert (preserved svg_content) content))"

section \<open>Files and folders\<close>

text \<open>
  What the batch driver asks of the file system: whether a path is a directory, whether
  \<open>os.makedirs(dest_folder, exist_ok=True)\<close> succeeds, what \<open>os.listdir\<close> returns, what
  reading a path as UTF-8 text gives, and whether a path can be opened for writing. The
  driver reads each path once, so what it writes to the disk is kept in a trace of
  events, with the directory created and the files it tried to open.
\<close>

datatype svg_file = Unreadable | Undecodable | Text string

record filesystem =
  is_dir :: "string \<Rightarrow> bool"
  can_make :: "string \<Rightarrow> bool"
  listing :: "string \<Rightarrow> exn + string list"
  stored :: "string \<Rightarrow> svg_file"
  can_write :: "string \<Rightarrow> bool"

datatype event = Made string | Opened string | Written string string

text \<open>\<open>os.path.join\<close> of two components, and \<open>str(n)\<close> of a length.\<close>

definition path_join :: "string \<Rightarrow> string \<Rightarrow> string" where
  "path_join a b =
     (if prefix ''/'' b then b
      else if a = [] \<or> last a = CHR ''/'' then a @ b
      else a @ ''/'' @ b)"

fun decimal :: "nat \<Rightarrow> string" where
  "decimal n =
     (if n < 10 then [char_of (48 + n)] else decimal (n div 10) @ [char_of (48 + n mod 10)])"

declare decimal.simps [simp del]

text \<open>
  \<open>process_svg_file\<close>: both \<open>except\<close> clauses print and raise again, so every exception
  leaves the function; the events are those that happened before it.
\<close>

definition process_svg_file :: "filesystem \<Rightarrow> string \<Rightarrow> string \<Rightarrow> event list \<times> (exn + unit)" where
  "process_svg_file fs source_path dest_path =
     (case stored fs source_path of
        Unreadable \<Rightarrow> ([Opened source_path], Inl IOError)
      | Undecodable \<Rightarrow> ([Opened source_path], Inl UnicodeDecodeError)
      | Text svg \<Rightarrow>
          (case add_dark_mode_attributes svg of
             Inl e \<Rightarrow> ([Opened source_path], Inl e)
           | Inr modified_svg \<Rightarrow>
               if can_write fs dest_path
               then ([Opened source_path, Written dest_path modified_svg], Inr ())
               else ([Opened source_path], Inl IOError)))"

text \<open>
  The loop of \<open>process_folder\<close> over the names listed, with the errors collected so far.
  Only \<open>IOError\<close> and \<open>UnicodeDecodeError\<close> are caught; any other exception ends the loop.
\<close>

fun process_files ::
  "filesystem \<Rightarrow> string \<Rightarrow> string \<Rightarrow> string list \<Rightarrow> (string \<times> exn) list \<Rightarrow>
   event list \<times> (exn + (string \<times> exn) list)" where
  "process_files fs source_folder dest_folder [] errors = ([], Inr errors)"
| "process_files fs source_folder dest_folder (filename # rest) errors =
     (if suffix ''.svg'' filename
      then case process_svg_file fs (path_join source_folder filename)
                  (path_join dest_folder filename) of
             (evs, Inr u) \<Rightarrow>
               (case process_files fs source_folder dest_folder rest errors of
                  (evs', r) \<Rightarrow> (evs @ evs', r))
           | (evs, Inl e) \<Rightarrow>
               if e = IOError \<or> e = UnicodeDecodeError
               then (case process_files fs source_folder dest_folder rest
                            (errors @ [(filename, e)]) of
                       (evs', r) \<Rightarrow> (evs @ evs', r))
               else (evs, Inl e)
      else process_files fs source_folder dest_folder rest errors)"

definition process_folder :: "filesystem \<Rightarrow> string \<Rightarrow> string \<Rightarrow> event list \<times> (exn + unit)" where
  "process_folder fs source_folder dest_folder =
     (if \<not> is_dir fs source_folder
      then ([], Inl (ValueError ''Source path is not a valid directory''))
      else if \<not> can_make fs dest_folder then ([], Inl IOError)
      else case listing fs source_folder of
             Inl e \<Rightarrow> ([Made dest_folder], Inl e)
           | Inr names \<Rightarrow>
               (case process_files fs source_folder dest_folder names [] of
                  (evs, Inl e) \<Rightarrow> (Made dest_folder # evs, Inl e)
                | (evs, Inr errors) \<Rightarrow>
                    if errors \<noteq> []
                    then (Made dest_folder # evs,
                          Inl (ValueError (''Failed to process '' @ decimal (length errors) @
                                           '' files'')))
                    else (Made dest_folder # evs, Inr ())))"

section \<open>Vocabulary of the properties\<close>

definition is_hex :: "char \<Rightarrow> bool" where
  "is_hex c = (hex_val c \<noteq> None)"

definition lower_hex :: "char \<Rightarrow> bool" where
  "lower_hex c = (c \<in> set ''0123456789abcdef'')"

definition digit_value :: "char \<Rightarrow> int" where
  "digit_value c = (case hex_val c of Some d \<Rightarrow> int d | None \<Rightarrow> 0)"

text \<open>The value of a two-digit component, and the text of its inversion.\<close>

definition component :: "char \<Rightarrow> char \<Rightarrow> int" where
  "component a b = 16 * digit_value a + digit_value b"

definition inverted :: "char \<Rightarrow> char \<Rightarrow> string" where
  "inverted a b = fmt02x (255 - component a b)"

text \<open>
  The values that the rewriting pass matches, left to right: the groups of the matches
  of the fill pattern, found by the same scan as \<open>rewrite_fills\<close>.
\<close>

function fill_values :: "string \<Rightarrow> string list" where
  "fill_values [] = []"
| "fill_values (c # cs) =
     (case fill_match (c # cs) of
        Some (fill, rest) \<Rightarrow> fill # fill_values rest
      | None \<Rightarrow> fill_values cs)"
  by pat_completeness auto
termination
  by (relation "measure length") (auto dest: fill_match_shorter)

text \<open>A value made of \<open>#\<close>, six hexadecimal digits and any further text.\<close>

fun six_hex :: "string \<Rightarrow> bool" where
  "six_hex (h # a # b # c # d # e # f # extra) =
     (h = CHR ''#'' \<and> list_all is_hex [a, b, c, d, e, f])"
| "six_hex v = False"

definition well_formed_color :: "string \<Rightarrow> bool" where
  "well_formed_color v =
     (lower v = ''black'' \<or> lower v = ''white'' \<or> \<not> prefix ''#'' v \<or> six_hex v)"

text \<open>
  The \<open>.svg\<close> names of a listing, the paths that a trace tried to open, and whether
  processing one file raises.
\<close>

definition svg_names :: "string list \<Rightarrow> string list" where
  "svg_names names = filter (suffix ''.svg'') names"

fun attempted :: "event list \<Rightarrow> string list" where
  "attempted [] = []"
| "attempted (Opened path # evs) = path # attempted evs"
| "attempted (ev # evs) = attempted evs"

definition fails :: "filesystem \<Rightarrow> string \<Rightarrow> string \<Rightarrow> string \<Rightarrow> bool" where
  "fails fs source_folder dest_folder filename =
     (snd (process_svg_file fs (path_join source_folder filename)
             (path_join dest_folder filename)) \<noteq> Inr ())"

text \<open>A file whose text the pipeline rejects, with an exception that the loop does not catch.\<close>

definition rejected :: "filesystem \<Rightarrow> string \<Rightarrow> bool" where
  "rejected fs path =
     (case stored fs path of
        Text svg \<Rightarrow> (case add_dark_mode_attributes svg of Inl e \<Rightarrow> True | Inr m \<Rightarrow> False)
      | _ \<Rightarrow> False)"

text \<open>A folder of three \<open>.svg\<close> files, two of them unreadable, and one other file.\<close>

definition example_fs :: filesystem where
  \<open>example_fs =
     \<lparr>is_dir = (\<lambda>p. p = ''in''),
      can_make = (\<lambda>p. True),
      listing = (\<lambda>p. Inr [''a.svg'', ''notes.txt'', ''b.svg'', ''c.svg'']),
      stored = (\<lambda>p. if p = ''in/a.svg'' then Unreadable
                     else if p = ''in/b.svg'' then Text ''<path fill="black"/>''
                     else Undecodable),
      can_write = (\<lambda>p. True)\<rparr>\<close>

text \<open>
  A folder in which the second of three \<open>.svg\<close> files holds a fill value that
  \<open>invert_color\<close> does not accept; the first file is unreadable.
\<close>

definition rejecting_fs :: filesystem where
  \<open>rejecting_fs =
     \<lparr>is_dir = (\<lambda>p. p = ''in''),
      can_make = (\<lambda>p. True),
      listing = (\<lambda>p. Inr [''a.svg'', ''x.svg'', ''z.svg'']),
      stored = (\<lambda>p. if p = ''in/a.svg'' then Unreadable
                     else if p = ''in/x.svg'' then Text ''<path fill="#FFF"/>''
                     else Text ''<path fill="black"/>''),
      can_write = (\<lambda>p. True)\<rparr>\<close>

text \<open>A value that \<open>invert_color\<close> inverts without raising.\<close>

definition inverts :: "string \<Rightarrow> bool" where
  "inverts v = (case invert_color v of Inl e \<Rightarrow> False | Inr d \<Rightarrow> True)"

text \<open>A result with text put in front of it; an exception stays as it is.\<close>

definition with_prefix :: "string \<Rightarrow> exn + string \<Rightarrow> exn + string" where
  "with_prefix pre r = (case r of Inl e \<Rightarrow> Inl e | Inr out \<Rightarrow> Inr (pre @ out))"

text \<open>
  A simple document: text, then fill attributes, each followed by more text. The layout
  puts a gap, which may depend on the value, between each attribute and the text after
  it: nothing, the companion attribute, or the companion and some spaces. The values
  invert without error and hold, as their inverses do, no quotation mark, no \<open>fill\<close> and
  no \<open><style>\<close>; the text holds none of the words that the passes look for.
\<close>

definition fill_attr :: "string \<Rightarrow> string" where
  \<open>fill_attr v = ''fill="'' @ v @ ''"''\<close>

definition dark_of :: "string \<Rightarrow> string" where
  "dark_of v = (case invert_color v of Inl e \<Rightarrow> [] | Inr d \<Rightarrow> d)"

definition companion_of :: "string \<Rightarrow> string" where
  \<open>companion_of v = '' fill-dark="'' @ dark_of v @ ''"''\<close>

fun layout :: "(string \<Rightarrow> string) \<Rightarrow> (string \<times> string) list \<Rightarrow> string" where
  "layout gap [] = []"
| "layout gap ((v, seg) # items) = fill_attr v @ gap v @ seg @ layout gap items"

definition plain_text :: "string \<Rightarrow> bool" where
  "plain_text x = (CHR 0x22 \<notin> set x \<and> \<not> sublist ''fill'' x \<and> \<not> sublist ''<style>'' x)"

definition good_value :: "string \<Rightarrow> bool" where
  "good_value v =
     (plain_text v \<and> (case invert_color v of Inl e \<Rightarrow> False | Inr d \<Rightarrow> plain_text d))"

definition safe_text :: "string \<Rightarrow> bool" where
  \<open>safe_text seg =
     (\<not> sublist ''fill="'' seg \<and> \<not> sublist ''fill-dark'' seg \<and>
      \<not> sublist ''fill-light="'' seg \<and> \<not> sublist ''<style>'' seg)\<close>

definition simple_document :: "string \<Rightarrow> (string \<times> string) list \<Rightarrow> bool" where
  "simple_document seg0 items =
     (safe_text seg0 \<and> list_all (\<lambda>(v, seg). good_value v \<and> safe_text seg) items)"

definition spaces :: "nat \<Rightarrow> string" where
  "spaces n = replicate n CHR '' ''"

section \<open>Hexadecimal digits\<close>

lemma is_hex_code:
  "is_hex c \<Longrightarrow>
     (48 \<le> code c \<and> code c \<le> 57) \<or> (97 \<le> code c \<and> code c \<le> 102) \<or>
     (65 \<le> code c \<and> code c \<le> 70)"
  by (auto simp: is_hex_def hex_val_def Let_def split: if_splits)

lemma code_simps:
  "code CHR ''_'' = 95" "code CHR ''+'' = 43" "code CHR ''-'' = 45"
  "code CHR ''x'' = 120" "code CHR ''X'' = 88" "code CHR ''#'' = 35"
  by (simp_all add: code_def)

lemma is_hex_not_special:
  assumes "is_hex c"
  shows "c \<noteq> CHR ''_''" "c \<noteq> CHR ''+''" "c \<noteq> CHR ''-''" "c \<noteq> CHR ''x''"
    "c \<noteq> CHR ''X''" "c \<noteq> CHR ''#''" "\<not> int_space c"
  using is_hex_code [OF assms] by (auto simp: code_simps int_space_def)

lemma py_int16_pair:
  assumes "is_hex a" "is_hex b"
  shows "py_int16 [a, b] = Inr (component a b)"
proof -
  obtain x y where xy: "hex_val a = Some x" "hex_val b = Some y"
    using assms by (auto simp: is_hex_def)
  show ?thesis
    using is_hex_not_special [OF assms(1)] is_hex_not_special [OF assms(2)] xy
    by (simp add: py_int16_def digit_value_def component_def)
qed

lemma digit_value_range: "0 \<le> digit_value c \<and> digit_value c < 16"
  by (auto simp: digit_value_def hex_val_def Let_def)

lemma component_range: "0 \<le> component a b \<and> component a b < 256"
  using digit_value_range [of a] digit_value_range [of b] by (auto simp: component_def)

lemma char_of_48: "char_of (48::nat) = CHR ''0''"
  by code_simp

lemma is_hex_cases: "is_hex c \<Longrightarrow> c \<in> set ''0123456789abcdefABCDEF''"
proof -
  assume "is_hex c"
  then have "code c \<in>
      {48,49,50,51,52,53,54,55,56,57,97,98,99,100,101,102,65,66,67,68,69,70}"
    using is_hex_code [of c] by simp arith
  then have "char_of (code c) \<in> char_of `
      {48,49,50,51,52,53,54,55,56,57,97,98,99,100,101,102,65,66,67,68,69,70::nat}"
    by (rule imageI)
  then have A: "c \<in> char_of `
      {48,49,50,51,52,53,54,55,56,57,97,98,99,100,101,102,65,66,67,68,69,70::nat}"
    by (simp only: code_def char_of_char)
  have B: "char_of `
      {48,49,50,51,52,53,54,55,56,57,97,98,99,100,101,102,65,66,67,68,69,70::nat} =
      set ''0123456789abcdefABCDEF''"
    by code_simp
  from A show ?thesis unfolding B .
qed

lemma hex_digit_digit_value: "is_hex c \<Longrightarrow> hex_digit (nat (digit_value c)) = lower_char c"
proof -
  assume "is_hex c"
  then have "c \<in> set ''0123456789abcdefABCDEF''"
    by (rule is_hex_cases)
  moreover have "\<forall>c \<in> set ''0123456789abcdefABCDEF''.
      hex_digit (nat (digit_value c)) = lower_char c"
    by code_simp
  ultimately show ?thesis by blast
qed

lemma fmt02x_byte:
  assumes "0 \<le> n" "n < 256"
  shows "fmt02x n = [hex_digit (nat n div 16), hex_digit (nat n mod 16)]"
proof -
  have "to_hex (nat n) =
      (if nat n < 16 then [hex_digit (nat n)]
       else [hex_digit (nat n div 16), hex_digit (nat n mod 16)])"
    using assms by (subst to_hex.simps, subst to_hex.simps) auto
  then show ?thesis
    using assms by (auto simp: fmt02x_def hex_digit_def char_of_48)
qed

lemma hex_val_hex_digit: "d < 16 \<Longrightarrow> hex_val (hex_digit d) = Some d"
  by (auto simp: hex_val_def hex_digit_def code_def Let_def)

lemma lower_hex_digit: "d < 16 \<Longrightarrow> lower_hex (hex_digit d)"
proof -
  assume "d < 16"
  then have "d \<in> set [0..<16]" by simp
  moreover have "\<forall>d \<in> set [0..<16]. lower_hex (hex_digit d)" by code_simp
  ultimately show ?thesis by blast
qed

lemma component_hex_digits:
  "p < 16 \<Longrightarrow> q < 16 \<Longrightarrow> component (hex_digit p) (hex_digit q) = 16 * int p + int q"
  by (simp add: component_def digit_value_def hex_val_hex_digit)

lemma inverted_shape: "length (inverted a b) = 2 \<and> list_all lower_hex (inverted a b)"
proof -
  have r: "0 \<le> 255 - component a b" "255 - component a b < 256"
    using component_range [of a b] by auto
  have "nat (255 - component a b) div 16 < 16" "nat (255 - component a b) mod 16 < 16"
    using r by auto
  then show ?thesis
    unfolding inverted_def fmt02x_byte [OF r]
    by (simp add: lower_hex_digit)
qed

section \<open>Inverting a colour\<close>

lemma hex_to_rgb_six:
  assumes "list_all is_hex [a, b, c, d, e, f]"
  shows "hex_to_rgb (CHR ''#'' # a # b # c # d # e # f # extra) =
    Inr [component a b, component c d, component e f]"
  using assms is_hex_not_special(6) [of a]
  by (simp add: hex_to_rgb_def lstrip_hash_def slice2_def py_int16_pair)

lemma not_named_hash: "map_of color_map (lower (CHR ''#'' # s)) = None"
  by (simp add: color_map_def lower_def lower_char_def code_def)

lemma invert_color_six:
  assumes "list_all is_hex [a, b, c, d, e, f]"
  shows "invert_color (CHR ''#'' # a # b # c # d # e # f # extra) =
    Inr (CHR ''#'' # inverted a b @ inverted c d @ inverted e f)"
  by (simp add: invert_color_def not_named_hash hex_to_rgb_six [OF assms] rgb_to_hex_def
      inverted_def)

text \<open>Inverting a component twice gives its digits back, in lower case.\<close>

lemma inverted_twice:
  assumes "is_hex a" "is_hex b"
  shows "\<exists>x y. inverted a b = [x, y] \<and> is_hex x \<and> is_hex y \<and>
    inverted x y = [lower_char a, lower_char b]"
proof -
  let ?n = "255 - component a b"
  have r: "0 \<le> ?n" "?n < 256"
    using component_range [of a b] by auto
  let ?x = "hex_digit (nat ?n div 16)" and ?y = "hex_digit (nat ?n mod 16)"
  have i: "inverted a b = [?x, ?y]"
    unfolding inverted_def by (rule fmt02x_byte [OF r])
  have hx: "hex_val ?x = Some (nat ?n div 16)" and hy: "hex_val ?y = Some (nat ?n mod 16)"
    using r by (auto intro!: hex_val_hex_digit)
  have "nat ?n div 16 < 16" "nat ?n mod 16 < 16"
    using r by auto
  then have "component ?x ?y = 16 * int (nat ?n div 16) + int (nat ?n mod 16)"
    by (rule component_hex_digits)
  also have "\<dots> = int (nat ?n)"
    by (simp add: zdiv_int zmod_int)
  finally have c: "component ?x ?y = ?n"
    using r by simp
  have r2: "0 \<le> component a b" "component a b < 256"
    using component_range [of a b] by auto
  have da: "nat (component a b) div 16 = nat (digit_value a)"
    and db: "nat (component a b) mod 16 = nat (digit_value b)"
    using digit_value_range [of a] digit_value_range [of b]
    by (auto simp: component_def nat_add_distrib nat_mult_distrib)
  have "inverted ?x ?y = [lower_char a, lower_char b]"
    unfolding inverted_def c using fmt02x_byte [OF r2] assms
    by (simp add: da db hex_digit_digit_value)
  with i hx hy show ?thesis by (auto simp: is_hex_def)
qed

text \<open>
  C3 (as amended). A value that equals \<open>black\<close> or \<open>white\<close> when lowered is mapped to
  the other name. A value made of \<open>#\<close>, six hexadecimal digits and any further text is
  mapped to \<open>#\<close> followed by the three components, each replaced by 255 minus it and
  written as two lowercase digits. A value that is neither \<open>black\<close> nor \<open>white\<close> and
  does not begin with \<open>#\<close> is returned unchanged. Nothing is said of the other values
  that begin with \<open>#\<close>.
\<close>

theorem invert_color_cases:
  "(lower color = ''black'' \<longrightarrow> invert_color color = Inr ''white'') \<and>
   (lower color = ''white'' \<longrightarrow> invert_color color = Inr ''black'') \<and>
   (list_all is_hex [a, b, c, d, e, f] \<and> color = CHR ''#'' # a # b # c # d # e # f # extra \<longrightarrow>
      invert_color color =
        Inr (CHR ''#'' # fmt02x (255 - component a b) @ fmt02x (255 - component c d) @
             fmt02x (255 - component e f)) \<and>
      list_all lower_hex (fmt02x (255 - component a b) @ fmt02x (255 - component c d) @
             fmt02x (255 - component e f))) \<and>
   (lower color \<noteq> ''black'' \<and> lower color \<noteq> ''white'' \<and> \<not> prefix ''#'' color \<longrightarrow>
      invert_color color = Inr color)"
proof (intro conjI impI)
  assume "lower color = ''black''"
  then show "invert_color color = Inr ''white''"
    by (simp add: invert_color_def color_map_def)
next
  assume "lower color = ''white''"
  then show "invert_color color = Inr ''black''"
    by (simp add: invert_color_def color_map_def)
next
  assume h: "list_all is_hex [a, b, c, d, e, f] \<and>
    color = CHR ''#'' # a # b # c # d # e # f # extra"
  then show "invert_color color =
        Inr (CHR ''#'' # fmt02x (255 - component a b) @ fmt02x (255 - component c d) @
             fmt02x (255 - component e f))"
    using invert_color_six [of a b c d e f extra] by (simp add: inverted_def)
  show "list_all lower_hex (fmt02x (255 - component a b) @ fmt02x (255 - component c d) @
             fmt02x (255 - component e f))"
    using inverted_shape [of a b] inverted_shape [of c d] inverted_shape [of e f]
    by (simp add: inverted_def)
next
  assume "lower color \<noteq> ''black'' \<and> lower color \<noteq> ''white'' \<and> \<not> prefix ''#'' color"
  then show "invert_color color = Inr color"
    by (simp add: invert_color_def color_map_def)
qed

theorem invert_color_cases_witness:
  "lower ''Black'' = ''black'' \<and> invert_color ''Black'' = Inr ''white'' \<and>
   lower ''WHITE'' = ''white'' \<and> invert_color ''WHITE'' = Inr ''black'' \<and>
   list_all is_hex ''1a2B3c'' \<and> invert_color ''#1a2B3c'' = Inr ''#e5d4c3'' \<and>
   lower ''red'' \<noteq> ''black'' \<and> lower ''red'' \<noteq> ''white'' \<and> \<not> prefix ''#'' ''red'' \<and>
   invert_color ''red'' = Inr ''red''"
proof -
  have b: "lower ''Black'' = ''black''" and w: "lower ''WHITE'' = ''white''"
    by code_simp+
  have h: "list_all is_hex ''1a2B3c''"
    by code_simp
  have r: "lower ''red'' \<noteq> ''black'' \<and> lower ''red'' \<noteq> ''white'' \<and> \<not> prefix ''#'' ''red''"
    by code_simp
  have v: "CHR ''#'' # fmt02x (255 - component CHR ''1'' CHR ''a'') @
      fmt02x (255 - component CHR ''2'' CHR ''B'') @
      fmt02x (255 - component CHR ''3'' CHR ''c'') = ''#e5d4c3''"
    by code_simp
  have "invert_color ''Black'' = Inr ''white''"
    using invert_color_cases [of "''Black''"] b by blast
  moreover have "invert_color ''WHITE'' = Inr ''black''"
    using invert_color_cases [of "''WHITE''"] w by blast
  moreover have "invert_color ''#1a2B3c'' = Inr ''#e5d4c3''"
    using invert_color_cases [of "''#1a2B3c''" "CHR ''1''" "CHR ''a''" "CHR ''2''" "CHR ''B''"
        "CHR ''3''" "CHR ''c''" "[]"] h v by simp
  moreover have "invert_color ''red'' = Inr ''red''"
    using invert_color_cases [of "''red''"] r by blast
  ultimately show ?thesis
    using b w h r by blast
qed

text \<open>
  The claim C3 as it was written sends every value outside its first two cases to itself.
  \<open>#FFF\<close> is neither name and has only three digits; the third slice of the source is
  empty and \<open>int\<close> rejects it.
\<close>

theorem invert_color_short_hex_raises:
  "lower ''#FFF'' \<noteq> ''black'' \<and> lower ''#FFF'' \<noteq> ''white'' \<and> length ''#FFF'' < 7 \<and>
   invert_color ''#FFF'' = Inl (ValueError ''invalid literal for int() with base 16'') \<and>
   invert_color ''#FFF'' \<noteq> Inr ''#FFF''"
  by code_simp

text \<open>
  C4 (as amended). For every colour \<open>#RRGGBB\<close> of six hexadecimal digits in either case,
  inverting twice gives the colour in lower case; inverting \<open>black\<close> twice gives
  \<open>black\<close> and inverting \<open>white\<close> twice gives \<open>white\<close>.
\<close>

theorem invert_color_twice:
  "(list_all is_hex [a, b, c, d, e, f] \<longrightarrow>
      (\<exists>once. invert_color (CHR ''#'' # [a, b, c, d, e, f]) = Inr once \<and>
         invert_color once = Inr (lower (CHR ''#'' # [a, b, c, d, e, f])))) \<and>
   invert_color ''black'' = Inr ''white'' \<and> invert_color ''white'' = Inr ''black''"
proof (intro conjI impI)
  assume h: "list_all is_hex [a, b, c, d, e, f]"
  obtain a' b' where ab: "inverted a b = [a', b']" "is_hex a'" "is_hex b'"
    "inverted a' b' = [lower_char a, lower_char b]"
    using inverted_twice [of a b] h by auto
  obtain c' d' where cd: "inverted c d = [c', d']" "is_hex c'" "is_hex d'"
    "inverted c' d' = [lower_char c, lower_char d]"
    using inverted_twice [of c d] h by auto
  obtain e' f' where ef: "inverted e f = [e', f']" "is_hex e'" "is_hex f'"
    "inverted e' f' = [lower_char e, lower_char f]"
    using inverted_twice [of e f] h by auto
  have 1: "invert_color (CHR ''#'' # [a, b, c, d, e, f]) = Inr (CHR ''#'' # [a', b', c', d', e', f'])"
    using invert_color_six [OF h, of "[]"] ab cd ef by simp
  have "list_all is_hex [a', b', c', d', e', f']"
    using ab cd ef by simp
  then have 2: "invert_color (CHR ''#'' # [a', b', c', d', e', f']) =
      Inr (CHR ''#'' # inverted a' b' @ inverted c' d' @ inverted e' f')"
    using invert_color_six [of a' b' c' d' e' f' "[]"] by simp
  have "lower_char CHR ''#'' = CHR ''#''"
    by code_simp
  with 1 2 ab cd ef
  show "\<exists>once. invert_color (CHR ''#'' # [a, b, c, d, e, f]) = Inr once \<and>
         invert_color once = Inr (lower (CHR ''#'' # [a, b, c, d, e, f]))"
    by (simp add: lower_def)
next
  show "invert_color ''black'' = Inr ''white''"
    by code_simp
  show "invert_color ''white'' = Inr ''black''"
    by code_simp
qed

theorem invert_color_twice_witness:
  "list_all is_hex ''1a2B3c'' \<and>
   (\<exists>once. invert_color ''#1a2B3c'' = Inr once \<and> invert_color once = Inr ''#1a2b3c'')"
proof -
  have h: "list_all is_hex ''1a2B3c''"
    by code_simp
  have l: "lower ''#1a2B3c'' = ''#1a2b3c''"
    by code_simp
  show ?thesis
    using invert_color_twice [of "CHR ''1''" "CHR ''a''" "CHR ''2''" "CHR ''B''" "CHR ''3''"
        "CHR ''c''"] h l by simp
qed

text \<open>
  The claim C4 as it was written gives the colour itself back, whatever the case of its
  digits. The digits of \<open>#FFFFFF\<close> come back in lower case.
\<close>

theorem invert_color_twice_upper_case:
  "list_all is_hex ''FFFFFF'' \<and> invert_color ''#FFFFFF'' = Inr ''#000000'' \<and>
   invert_color ''#000000'' = Inr ''#ffffff'' \<and> ''#ffffff'' \<noteq> ''#FFFFFF''"
  by code_simp

text \<open>
  C9. For every value made of \<open>#\<close>, six hexadecimal digits and any further text, the
  result is \<open>#\<close> followed by six lowercase hexadecimal digits, seven characters in all,
  computed from the six digits: the text after them has no part in it.
\<close>

theorem invert_color_ignores_tail:
  assumes "list_all is_hex [a, b, c, d, e, f]"
  shows "invert_color (CHR ''#'' # a # b # c # d # e # f # extra) =
      Inr (CHR ''#'' # inverted a b @ inverted c d @ inverted e f) \<and>
    length (CHR ''#'' # inverted a b @ inverted c d @ inverted e f) = 7 \<and>
    list_all lower_hex (inverted a b @ inverted c d @ inverted e f)"
  using invert_color_six [OF assms, of extra]
    inverted_shape [of a b] inverted_shape [of c d] inverted_shape [of e f]
  by simp

theorem invert_color_ignores_tail_witness:
  "list_all is_hex ''AbCdEf'' \<and> invert_color ''#AbCdEfextra'' = Inr ''#543210'' \<and>
   invert_color ''#AbCdEf'' = Inr ''#543210''"
proof -
  have h: "list_all is_hex ''AbCdEf''"
    by code_simp
  have v: "CHR ''#'' # inverted CHR ''A'' CHR ''b'' @ inverted CHR ''C'' CHR ''d'' @
      inverted CHR ''E'' CHR ''f'' = ''#543210''"
    by code_simp
  show ?thesis
    using invert_color_ignores_tail [OF h, of "''extra''"]
      invert_color_ignores_tail [OF h, of "[]"] h v
    by simp
qed

section \<open>Scans that find nothing\<close>

lemma six_hex_shape:
  assumes "six_hex v"
  obtains a b c d e f extra where "v = CHR ''#'' # a # b # c # d # e # f # extra"
    "list_all is_hex [a, b, c, d, e, f]"
  using assms by (induction v rule: six_hex.induct) auto

lemma well_formed_color_inverts: "well_formed_color v \<Longrightarrow> \<exists>d. invert_color v = Inr d"
  unfolding well_formed_color_def
proof (elim disjE)
  assume "six_hex v"
  then show ?thesis
    by (elim six_hex_shape) (auto simp: invert_color_six)
qed (auto simp: invert_color_def color_map_def)

lemma rewrite_fills_returns:
  "\<forall>v \<in> set (fill_values s). \<exists>d. invert_color v = Inr d \<Longrightarrow> \<exists>out. rewrite_fills s = Inr out"
proof (induction s rule: rewrite_fills.induct)
  case 1
  then show ?case by simp
next
  case (2 c cs)
  show ?case
  proof (cases "fill_match (c # cs)")
    case None
    with 2 show ?thesis by auto
  next
    case (Some p)
    obtain fill rest where p: "p = (fill, rest)" by (cases p)
    from 2(3) Some p obtain d where d: "invert_color fill = Inr d" by auto
    then obtain rep where rep: "replace_fill fill = Inr rep" by (auto simp: replace_fill_def)
    from 2(3) Some p have "\<forall>v \<in> set (fill_values rest). \<exists>d. invert_color v = Inr d" by auto
    with 2(2) [OF Some [unfolded p] refl rep] obtain out where "rewrite_fills rest = Inr out" by auto
    with Some p rep show ?thesis by simp
  qed
qed

lemma no_sublist_Cons: "\<not> sublist p (c # cs) \<Longrightarrow> \<not> prefix p (c # cs) \<and> \<not> sublist p cs"
  by (simp add: sublist_Cons_right)

lemma style_match_prefix: "style_match s = Some x \<Longrightarrow> prefix ''<style>'' s"
  by (auto simp: style_match_def split: if_splits)

lemma attr_match_prefix: "attr_match name s = Some x \<Longrightarrow> prefix (name @ [CHR ''='', CHR 0x22]) s"
  by (auto simp: attr_match_def split: if_splits)

lemma fill_match_prefix: "fill_match s = Some x \<Longrightarrow> prefix [CHR ''f'', CHR ''i'', CHR ''l'', CHR ''l'', CHR ''='', CHR 0x22] s"
  by (auto simp: fill_match_def dest: attr_match_prefix split: option.splits if_splits)

lemma find_styles_none: "\<not> sublist ''<style>'' s \<Longrightarrow> find_styles s = []"
proof (induction s)
  case (Cons c cs)
  then have "style_match (c # cs) = None" "\<not> sublist ''<style>'' cs"
    using style_match_prefix [of "c # cs"] by (auto simp: sublist_Cons_right)
  with Cons show ?case by simp
qed simp

lemma remove_styles_none: "find_styles s = [] \<Longrightarrow> remove_styles s = s"
  by (induction s rule: find_styles.induct) (auto split: option.splits)

lemma strip_attr_none: "\<not> sublist (name @ [CHR ''='', CHR 0x22]) s \<Longrightarrow> strip_attr name s = s"
proof (induction s)
  case (Cons c cs)
  then have "attr_match name (c # cs) = None" "\<not> sublist (name @ [CHR ''='', CHR 0x22]) cs"
    using attr_match_prefix [of name "c # cs"] by (auto simp: sublist_Cons_right)
  with Cons show ?case by simp
qed simp

lemma rewrite_fills_none: "\<not> sublist [CHR ''f'', CHR ''i'', CHR ''l'', CHR ''l'', CHR ''='', CHR 0x22] s \<Longrightarrow> rewrite_fills s = Inr s"
proof (induction s)
  case (Cons c cs)
  then have "fill_match (c # cs) = None" "\<not> sublist [CHR ''f'', CHR ''i'', CHR ''l'', CHR ''l'', CHR ''='', CHR 0x22] cs"
    using fill_match_prefix [of "c # cs"] by (auto simp: sublist_Cons_right)
  with Cons show ?case by simp
qed simp

lemma split_at_eq: "split_at pat s = Some (a, b) \<Longrightarrow> s = a @ pat @ b"
proof (induction s arbitrary: a)
  case Nil
  then show ?case by (simp split: if_splits)
next
  case (Cons c cs)
  show ?case
  proof (cases "prefix pat (c # cs)")
    case True
    then obtain z where z: "c # cs = pat @ z"
      by (auto simp: prefix_def)
    from True Cons.prems have "a = []" "b = drop (length pat) (c # cs)"
      by auto
    with z show ?thesis by simp
  next
    case False
    with Cons.prems obtain a' where "split_at pat cs = Some (a', b)" "a = c # a'"
      by (auto split: option.splits)
    with Cons.IH show ?thesis by fastforce
  qed
qed

lemma style_match_eq:
  "style_match s = Some (t, rest) \<Longrightarrow> s = ''<style>'' @ t @ ''</style>'' @ rest"
proof -
  assume m: "style_match s = Some (t, rest)"
  then have p: "prefix ''<style>'' s" and sp: "split_at ''</style>'' (drop 7 s) = Some (t, rest)"
    by (auto simp: style_match_def split: if_splits)
  from p obtain z where "s = ''<style>'' @ z" by (auto simp: prefix_def)
  moreover from this sp have "z = t @ ''</style>'' @ rest"
    using split_at_eq [of "''</style>''" z t rest] by simp
  ultimately show ?thesis by simp
qed

lemma sublist_trans: "sublist a b \<Longrightarrow> sublist b c \<Longrightarrow> sublist a c"
  by (rule sublist_order.order.trans)

lemma sublist_Cons_rightI: "sublist a cs \<Longrightarrow> sublist a (c # cs)"
  by (simp add: sublist_Cons_right)

lemma find_styles_literal:
  "t \<in> set (find_styles s) \<Longrightarrow> sublist (''<style>'' @ t @ ''</style>'') s"
proof (induction s rule: find_styles.induct)
  case 1
  then show ?case by simp
next
  case (2 c cs)
  show ?case
  proof (cases "style_match (c # cs)")
    case None
    with 2 have "sublist (''<style>'' @ t @ ''</style>'') cs" by simp
    then show ?thesis by (rule sublist_Cons_rightI)
  next
    case (Some p)
    obtain inner rest where p: "p = (inner, rest)" by (cases p)
    from Some p have "style_match (c # cs) = Some (inner, rest)"
      by simp
    then have eq: "c # cs = ''<style>'' @ inner @ ''</style>'' @ rest"
      by (rule style_match_eq)
    from 2(3) Some p consider "t = inner" | "t \<in> set (find_styles rest)" by auto
    then show ?thesis
    proof cases
      case 1
      have "sublist (''<style>'' @ inner @ ''</style>'') ((''<style>'' @ inner @ ''</style>'') @ rest)"
        by (rule sublist_append_rightI)
      with 1 eq show ?thesis by simp
    next
      case 2
      with "2.IH"(2) [OF Some [unfolded p] refl] have "sublist (''<style>'' @ t @ ''</style>'') rest"
        by simp
      moreover have "sublist rest ((''<style>'' @ inner @ ''</style>'') @ rest)"
        by (rule sublist_append_leftI)
      ultimately have "sublist (''<style>'' @ t @ ''</style>'') ((''<style>'' @ inner @ ''</style>'') @ rest)"
        by (rule sublist_trans)
      with eq show ?thesis by simp
    qed
  qed
qed

lemma reinsert_Nil: "reinsert [] content = content"
  by (simp add: reinsert_def)

section \<open>The pipeline as a whole\<close>

text \<open>
  C7 (as amended). For every input text that contains no occurrence of \<open>fill=\<close>, no
  occurrence of \<open>fill-dark="\<close> or \<open>fill-light="\<close>, and no style block, the pipeline
  returns its input character for character.
\<close>

theorem no_fill_no_style_unchanged:
  assumes "\<not> sublist ''fill='' s"
    and \<open>\<not> sublist ''fill-dark="'' s\<close>
    and \<open>\<not> sublist ''fill-light="'' s\<close>
    and "find_styles s = []"
  shows "add_dark_mode_attributes s = Inr s"
proof -
  have \<open>sublist ''fill='' ''fill="''\<close>
    by code_simp
  with assms(1) have nf: \<open>\<not> sublist ''fill="'' s\<close>
    using sublist_trans by blast
  have "stripped s = s"
    using assms(2,3,4) strip_attr_none [of "''fill-dark''" s] strip_attr_none [of "''fill-light''" s]
    by (simp add: stripped_def remove_styles_none)
  moreover have "preserved s = []"
    using assms(4) by (simp add: preserved_def)
  ultimately show ?thesis
    using rewrite_fills_none [of s] nf
    by (simp add: add_dark_mode_attributes_def reinsert_Nil)
qed

theorem no_fill_no_style_unchanged_witness:
  \<open>\<not> sublist ''fill='' ''<not-valid-svg>'' \<and> \<not> sublist ''fill-dark="'' ''<not-valid-svg>'' \<and>
   \<not> sublist ''fill-light="'' ''<not-valid-svg>'' \<and> find_styles ''<not-valid-svg>'' = [] \<and>
   add_dark_mode_attributes ''<not-valid-svg>'' = Inr ''<not-valid-svg>''\<close>
proof -
  have 1: "\<not> sublist ''fill='' ''<not-valid-svg>''"
    and 2: \<open>\<not> sublist ''fill-dark="'' ''<not-valid-svg>''\<close>
    and 3: \<open>\<not> sublist ''fill-light="'' ''<not-valid-svg>''\<close>
    and 4: "find_styles ''<not-valid-svg>'' = []"
    by code_simp+
  from no_fill_no_style_unchanged [OF 1 2 3 4] 1 2 3 4 show ?thesis
    by blast
qed

text \<open>
  The claim C7 as it was written asks only for no \<open>fill=\<close> and no style block. A
  companion attribute left in the input holds no \<open>fill=\<close>, and the pipeline strips it.
\<close>

theorem stale_companion_is_stripped:
  \<open>\<not> sublist ''fill='' ''<path fill-dark=""/>'' \<and> find_styles ''<path fill-dark=""/>'' = [] \<and>
   add_dark_mode_attributes ''<path fill-dark=""/>'' = Inr ''<path />'' \<and>
   ''<path />'' \<noteq> ''<path fill-dark=""/>''\<close>
  by code_simp

text \<open>
  C1 (as amended). The pipeline returns a string, raising nothing, for every input in
  which each fill value that the rewriting pass matches is \<open>black\<close> or \<open>white\<close> in any
  case, or does not begin with \<open>#\<close>, or is \<open>#\<close> followed by six hexadecimal digits and
  any further text. This covers every input with no fill attribute, with or without
  SVG-like structure.
\<close>

theorem add_dark_mode_attributes_returns:
  assumes "\<forall>v \<in> set (fill_values (stripped svg_content)). well_formed_color v"
  shows "\<exists>out. add_dark_mode_attributes svg_content = Inr out"
proof -
  from assms have "\<forall>v \<in> set (fill_values (stripped svg_content)). \<exists>d. invert_color v = Inr d"
    by (blast dest: well_formed_color_inverts)
  then obtain content where "rewrite_fills (stripped svg_content) = Inr content"
    by (blast dest: rewrite_fills_returns)
  then show ?thesis
    by (simp add: add_dark_mode_attributes_def)
qed

theorem add_dark_mode_attributes_returns_witness:
  \<open>fill_values (stripped ''<path fill="#1a2B3c" stroke="#FFF"/>'') = [''#1a2B3c''] \<and>
   well_formed_color ''#1a2B3c'' \<and>
   (\<exists>out. add_dark_mode_attributes ''<path fill="#1a2B3c" stroke="#FFF"/>'' = Inr out)\<close>
proof -
  have v: \<open>fill_values (stripped ''<path fill="#1a2B3c" stroke="#FFF"/>'') = [''#1a2B3c'']\<close>
    by code_simp
  have w: "well_formed_color ''#1a2B3c''"
    by code_simp
  from v w
  have h: \<open>\<forall>v \<in> set (fill_values (stripped ''<path fill="#1a2B3c" stroke="#FFF"/>'')).
      well_formed_color v\<close>
    by simp
  from add_dark_mode_attributes_returns [OF h] v w show ?thesis
    by blast
qed

text \<open>
  The claim C1 as it was written includes malformed hex colours. On a fill value that
  begins with \<open>#\<close> and is too short, or holds a character that is no hexadecimal digit,
  \<open>int\<close> raises and nothing in the pipeline catches it.
\<close>

theorem malformed_hex_fill_raises:
  \<open>add_dark_mode_attributes ''<path fill="#FFF"/>'' =
     Inl (ValueError ''invalid literal for int() with base 16'') \<and>
   add_dark_mode_attributes ''<path fill="#GGGGGG"/>'' =
     Inl (ValueError ''invalid literal for int() with base 16'')\<close>
  by code_simp

text \<open>
  C10 (as amended). Every style block that the scan finds is opened by the literal
  seven-character tag \<open><style>\<close>. In a document with no literal \<open><style>\<close> tag nothing
  is classified, removed or aggregated, so a style element whose opening tag carries
  attributes reaches the output changed only by what the attribute passes do to its
  text: the stripping of \<open>fill-dark\<close> and \<open>fill-light\<close> attributes and the rewriting of
  fill attributes.
\<close>

theorem only_literal_style_tag:
  "(\<forall>t \<in> set (find_styles s). sublist (''<style>'' @ t @ ''</style>'') s) \<and>
   (\<not> sublist ''<style>'' s \<longrightarrow>
      find_styles s = [] \<and> remove_styles s = s \<and> preserved s = [] \<and>
      add_dark_mode_attributes s =
        rewrite_fills (strip_attr ''fill-light'' (strip_attr ''fill-dark'' s)))"
proof (intro conjI impI ballI)
  fix t assume "t \<in> set (find_styles s)"
  then show "sublist (''<style>'' @ t @ ''</style>'') s"
    by (rule find_styles_literal)
next
  assume n: "\<not> sublist ''<style>'' s"
  then show f: "find_styles s = []"
    by (rule find_styles_none)
  then show r: "remove_styles s = s"
    by (rule remove_styles_none)
  from f show p: "preserved s = []"
    by (simp add: preserved_def)
  from r p show "add_dark_mode_attributes s =
        rewrite_fills (strip_attr ''fill-light'' (strip_attr ''fill-dark'' s))"
    by (cases "rewrite_fills (strip_attr ''fill-light'' (strip_attr ''fill-dark'' s))")
      (simp_all add: add_dark_mode_attributes_def stripped_def reinsert_Nil)
qed

theorem only_literal_style_tag_witness:
  \<open>\<not> sublist ''<style>''
     ''<svg><style type="text/css">.a{fill:red}</style><path fill="black"/></svg>'' \<and>
   add_dark_mode_attributes
     ''<svg><style type="text/css">.a{fill:red}</style><path fill="black"/></svg>'' =
     Inr ''<svg><style type="text/css">.a{fill:red}</style><path fill="black" fill-dark="white"/></svg>'' \<and>
   find_styles ''<svg><style>.b{}</style></svg>'' = [''.b{}''] \<and>
   sublist (''<style>'' @ ''.b{}'' @ ''</style>'') ''<svg><style>.b{}</style></svg>''\<close>
proof -
  let ?s = \<open>''<svg><style type="text/css">.a{fill:red}</style><path fill="black"/></svg>''\<close>
  have n: "\<not> sublist ''<style>'' ?s"
    by code_simp
  have v: \<open>rewrite_fills (strip_attr ''fill-light'' (strip_attr ''fill-dark'' ?s)) =
     Inr ''<svg><style type="text/css">.a{fill:red}</style><path fill="black" fill-dark="white"/></svg>''\<close>
    by code_simp
  have f: "find_styles ''<svg><style>.b{}</style></svg>'' = [''.b{}'']"
    by code_simp
  from only_literal_style_tag [of ?s] n v
  have \<open>add_dark_mode_attributes ?s =
     Inr ''<svg><style type="text/css">.a{fill:red}</style><path fill="black" fill-dark="white"/></svg>''\<close>
    by simp
  moreover from only_literal_style_tag [of "''<svg><style>.b{}</style></svg>''"] f
  have "sublist (''<style>'' @ ''.b{}'' @ ''</style>'') ''<svg><style>.b{}</style></svg>''"
    by simp
  ultimately show ?thesis
    using n f by blast
qed

text \<open>
  The claim C10 as it was written holds for every document. When a literal style block
  is preserved, the aggregate is put after the first \<open>>\<close> of the document; here that is
  the end of the opening tag of the style element with attributes, whose text is thereby
  changed.
\<close>

theorem attributed_style_receives_block:
  \<open>add_dark_mode_attributes ''<style type="text/css">.a{}</style><style>.b{}</style>'' =
     Inr ''<style type="text/css"><style>.b{}</style>.a{}</style>'' \<and>
   \<not> sublist ''<style type="text/css">.a{}</style>''
     ''<style type="text/css"><style>.b{}</style>.a{}</style>''\<close>
  by code_simp

section \<open>Style blocks\<close>

lemma prefix_sep:
  assumes "c \<notin> set p"
  shows "prefix p (x @ c # y) \<longleftrightarrow> prefix p x"
proof
  assume "prefix p (x @ c # y)"
  then have "prefix p x \<or> (\<exists>us. p = x @ us \<and> prefix us (c # y))"
    by (simp only: prefix_append)
  then show "prefix p x"
  proof
    assume "\<exists>us. p = x @ us \<and> prefix us (c # y)"
    then obtain us where us: "p = x @ us" "prefix us (c # y)"
      by blast
    show ?thesis
    proof (cases us)
      case Nil
      with us show ?thesis by simp
    next
      case (Cons u us')
      with us have "u = c" by simp
      with Cons us assms show ?thesis by simp
    qed
  qed
next
  assume "prefix p x"
  then show "prefix p (x @ c # y)" by (rule prefix_prefix)
qed

lemma sublist_sep:
  assumes "c \<notin> set p"
  shows "sublist p (x @ c # y) \<longleftrightarrow> sublist p x \<or> sublist p y"
proof (induction x)
  case Nil
  have "prefix p (c # y) \<longleftrightarrow> p = []"
    using prefix_sep [OF assms, of "[]" y] by simp
  then show ?case by (auto simp: sublist_Cons_right)
next
  case (Cons a x)
  have "prefix p (a # x @ c # y) \<longleftrightarrow> prefix p (a # x)"
    using prefix_sep [OF assms, of "a # x" y] by simp
  with Cons show ?case by (simp add: sublist_Cons_right)
qed























section \<open>The rewriting pass\<close>

lemma with_prefix_simps [simp]:
  "with_prefix pre (Inl e) = Inl e" "with_prefix pre (Inr out) = Inr (pre @ out)"
  by (simp_all add: with_prefix_def)

lemma with_prefix_Nil: "with_prefix [] r = r"
  by (cases r) simp_all

lemma with_prefix_append: "with_prefix a (with_prefix b r) = with_prefix (a @ b) r"
  by (cases r) simp_all

lemma fill_match_None: \<open>\<not> prefix ''fill="'' s \<Longrightarrow> fill_match s = None\<close>
  by (simp add: fill_match_def attr_match_def)

lemma rewrite_fills_Cons_None:
  "fill_match (c # cs) = None \<Longrightarrow> rewrite_fills (c # cs) = with_prefix [c] (rewrite_fills cs)"
  by (cases "rewrite_fills cs") simp_all

lemma rewrite_skip:
  \<open>(\<And>p'. suffix p' pre \<Longrightarrow> p' \<noteq> [] \<Longrightarrow> \<not> prefix ''fill="'' (p' @ rest)) \<Longrightarrow>
     rewrite_fills (pre @ rest) = with_prefix pre (rewrite_fills rest)\<close>
proof (induction pre)
  case Nil
  show ?case by (simp add: with_prefix_Nil)
next
  case (Cons c pre)
  have \<open>\<not> prefix ''fill="'' ((c # pre) @ rest)\<close>
    by (rule Cons.prems) auto
  then have "fill_match ((c # pre) @ rest) = None"
    by (rule fill_match_None)
  then have "rewrite_fills ((c # pre) @ rest) = with_prefix [c] (rewrite_fills (pre @ rest))"
    by (simp only: append_Cons rewrite_fills_Cons_None)
  moreover have "rewrite_fills (pre @ rest) = with_prefix pre (rewrite_fills rest)"
  proof (rule Cons.IH)
    fix p' assume "suffix p' pre" "p' \<noteq> []"
    then show \<open>\<not> prefix ''fill="'' (p' @ rest)\<close>
      using Cons.prems [of p'] by (simp add: suffix_Cons)
  qed
  ultimately show ?case by (simp add: with_prefix_append)
qed

lemma fill_no_border:
  \<open>''fill="'' = p' @ us \<Longrightarrow> p' \<noteq> [] \<Longrightarrow> us \<noteq> [] \<Longrightarrow> \<not> prefix us (''fill="'' @ b)\<close>
  by (auto simp: Cons_eq_append_conv)

lemma rewrite_skip_pre:
  assumes \<open>\<not> sublist ''fill="'' pre\<close>
  shows \<open>rewrite_fills (pre @ ''fill="'' @ b) = with_prefix pre (rewrite_fills (''fill="'' @ b))\<close>
proof (rule rewrite_skip)
  fix p' assume s: "suffix p' pre" and n: "p' \<noteq> []"
  show \<open>\<not> prefix ''fill="'' (p' @ ''fill="'' @ b)\<close>
  proof
    assume \<open>prefix ''fill="'' (p' @ ''fill="'' @ b)\<close>
    then have \<open>prefix ''fill="'' p' \<or> (\<exists>us. ''fill="'' = p' @ us \<and> prefix us (''fill="'' @ b))\<close>
      by (simp only: prefix_append)
    then show False
    proof
      assume \<open>prefix ''fill="'' p'\<close>
      with s have \<open>sublist ''fill="'' pre\<close>
        by (meson prefix_imp_sublist sublist_order.order.trans suffix_imp_sublist)
      with assms show False by simp
    next
      assume \<open>\<exists>us. ''fill="'' = p' @ us \<and> prefix us (''fill="'' @ b)\<close>
      then obtain us where us: \<open>''fill="'' = p' @ us\<close> \<open>prefix us (''fill="'' @ b)\<close>
        by blast
      show False
      proof (cases "us = []")
        case True
        with us have \<open>p' = ''fill="''\<close> by simp
        with s have \<open>sublist ''fill="'' pre\<close>
          by (simp add: suffix_imp_sublist)
        with assms show False by simp
      next
        case False
        with n us fill_no_border [of p' us b] show False by blast
      qed
    qed
  qed
qed

lemma split_at_quote:
  "CHR 0x22 \<notin> set v \<Longrightarrow> split_at [CHR 0x22] (v @ CHR 0x22 # post) = Some (v, post)"
  by (induction v) auto

lemma attr_match_fill:
  \<open>CHR 0x22 \<notin> set v \<Longrightarrow> attr_match ''fill'' (''fill="'' @ v @ CHR 0x22 # post) = Some (v, post)\<close>
  using split_at_quote [of v post] by (simp add: attr_match_def)

lemma split_at_quote_eq:
  "split_at [CHR 0x22] s = Some (a, b) \<Longrightarrow> s = a @ CHR 0x22 # b \<and> CHR 0x22 \<notin> set a"
proof (induction s arbitrary: a)
  case Nil
  then show ?case by simp
next
  case (Cons c cs)
  then show ?case by (auto split: if_splits option.splits)
qed

lemma fill_match_eq:
  assumes "fill_match s = Some (fill, rest)"
  shows \<open>s = ''fill="'' @ fill @ CHR 0x22 # rest \<and> CHR 0x22 \<notin> set fill \<and> \<not> companion_follows rest\<close>
proof -
  from assms have a: "attr_match ''fill'' s = Some (fill, rest)" and c: "\<not> companion_follows rest"
    by (auto simp: fill_match_def split: option.splits if_splits)
  then have p: \<open>prefix ''fill="'' s\<close>
    and sp: "split_at [CHR 0x22] (drop (length ''fill'' + 2) s) = Some (fill, rest)"
    by (auto simp: attr_match_def split: if_splits)
  from p obtain z where z: \<open>s = ''fill="'' @ z\<close> by (auto simp: prefix_def)
  then have "drop (length ''fill'' + 2) s = z" by simp
  with sp have "split_at [CHR 0x22] z = Some (fill, rest)" by simp
  then have "z = fill @ CHR 0x22 # rest \<and> CHR 0x22 \<notin> set fill"
    by (rule split_at_quote_eq)
  with z c show ?thesis by simp
qed

lemma replace_fill_shape:
  "replace_fill fill = Inr rep \<Longrightarrow>
     \<exists>d. invert_color fill = Inr d \<and>
       rep = [CHR ''f'', CHR ''i'', CHR ''l'', CHR ''l'', CHR ''='', CHR 0x22] @ fill @
             [CHR 0x22, CHR '' '', CHR ''f'', CHR ''i'', CHR ''l'', CHR ''l'', CHR ''-'', CHR ''d'', CHR ''a'', CHR ''r'', CHR ''k'', CHR ''='', CHR 0x22] @ d @ [CHR 0x22]"
  by (auto simp: replace_fill_def split: sum.splits)

text \<open>The pass only inserts text, and only after a quotation mark.\<close>

lemma rewrite_fills_keeps_prefix:
  "rewrite_fills c = Inr out \<Longrightarrow> CHR 0x22 \<notin> set w \<Longrightarrow> prefix w c \<Longrightarrow> prefix w out"
proof (induction c arbitrary: out w rule: rewrite_fills.induct)
  case 1
  then show ?case by simp
next
  case (2 c cs)
  show ?case
  proof (cases "fill_match (c # cs)")
    case None
    with "2.prems"(1) obtain out' where o: "rewrite_fills cs = Inr out'" "out = c # out'"
      by (auto split: sum.splits)
    show ?thesis
    proof (cases w)
      case Nil
      then show ?thesis by simp
    next
      case (Cons x w')
      with "2.prems" have "x = c" "CHR 0x22 \<notin> set w'" "prefix w' cs" by auto
      with "2.IH"(1) [OF None o(1)] Cons o show ?thesis by simp
    qed
  next
    case (Some p)
    obtain fill rest where p: "p = (fill, rest)" by (cases p)
    from Some p have m: "fill_match (c # cs) = Some (fill, rest)" by simp
    from fill_match_eq [OF m] have e: \<open>c # cs = ''fill="'' @ fill @ CHR 0x22 # rest\<close> by simp
    from "2.prems"(1) m obtain rep out' where r: "replace_fill fill = Inr rep" "out = rep @ out'"
      by (auto split: sum.splits)
    from replace_fill_shape [OF r(1)] obtain t where t: \<open>rep = ''fill="'' @ t\<close>
      by auto
    from e have e2: "c # cs = ''fill='' @ CHR 0x22 # (fill @ CHR 0x22 # rest)"
      by simp
    have "prefix w (''fill='' @ CHR 0x22 # (fill @ CHR 0x22 # rest)) \<longleftrightarrow> prefix w ''fill=''"
      using "2.prems"(2) by (rule prefix_sep)
    with "2.prems"(3) [unfolded e2] have "prefix w ''fill=''"
      by blast
    then have \<open>prefix w (''fill='' @ CHR 0x22 # (t @ out'))\<close>
      by (rule prefix_prefix)
    with r t show ?thesis by simp
  qed
qed

lemma rewrite_fills_match:
  "fill_match s = Some (fill, rest) \<Longrightarrow>
     rewrite_fills s =
       (case replace_fill fill of Inl e \<Rightarrow> Inl e | Inr rep \<Rightarrow> with_prefix rep (rewrite_fills rest))"
proof (cases s)
  case Nil
  assume "fill_match s = Some (fill, rest)"
  with Nil show ?thesis by (simp add: fill_match_def attr_match_def)
next
  case (Cons c cs)
  assume "fill_match s = Some (fill, rest)"
  with Cons show ?thesis
    by (cases "rewrite_fills rest") (simp_all split: sum.splits)
qed

lemma rewrite_fills_not_f:
  "c \<noteq> CHR ''f'' \<Longrightarrow> rewrite_fills (c # cs) = with_prefix [c] (rewrite_fills cs)"
  by (rule rewrite_fills_Cons_None, rule fill_match_None) simp

lemma quote_not_space: "\<not> re_space (CHR 0x22)"
  by code_simp

lemma companion_prefix:
  assumes "companion_follows post"
  shows "prefix (takeWhile re_space post @ ''fill-dark'') post"
    and "CHR 0x22 \<notin> set (takeWhile re_space post @ ''fill-dark'')"
proof -
  from assms have "prefix ''fill-dark'' (dropWhile re_space post)"
    by (simp add: companion_follows_def)
  then have "prefix (takeWhile re_space post @ ''fill-dark'')
      (takeWhile re_space post @ dropWhile re_space post)"
    by (simp only: same_prefix_prefix)
  then show "prefix (takeWhile re_space post @ ''fill-dark'') post"
    by simp
  have "CHR 0x22 \<notin> set (takeWhile re_space post)"
    using quote_not_space by (auto dest: set_takeWhileD)
  then show "CHR 0x22 \<notin> set (takeWhile re_space post @ ''fill-dark'')"
    by simp
qed

lemma first_occurrence_unique:
  "x \<notin> set a \<Longrightarrow> x \<notin> set a' \<Longrightarrow> a @ x # b = a' @ x # b' \<Longrightarrow> a = a' \<and> b = b'"
proof (induction a arbitrary: a')
  case Nil
  then show ?case by (cases a') auto
next
  case (Cons y a)
  then show ?case by (cases a') auto
qed

lemma prefix_quote_unique:
  assumes "CHR 0x22 \<notin> set a" "CHR 0x22 \<notin> set a'" "prefix (a @ [CHR 0x22]) (a' @ CHR 0x22 # b)"
  shows "a = a'"
proof -
  from assms(3) obtain z where "a' @ CHR 0x22 # b = a @ CHR 0x22 # z"
    by (auto simp: prefix_def)
  with assms(1,2) show ?thesis
    using first_occurrence_unique [of "CHR 0x22" a' a b z] by simp
qed

lemma fill_prefix_value:
  assumes "CHR 0x22 \<notin> set v'" \<open>prefix ''fill="'' (v' @ CHR 0x22 # b)\<close>
  shows "v' = ''fill=''"
proof -
  have "CHR 0x22 \<notin> set ''fill=''" by simp
  moreover from assms(2) have "prefix (''fill='' @ [CHR 0x22]) (v' @ CHR 0x22 # b)" by simp
  ultimately show ?thesis
    using assms(1) prefix_quote_unique by blast
qed

text \<open>A value that does not end in \<open>fill=\<close> hosts no match.\<close>

lemma rewrite_fills_value:
  assumes "CHR 0x22 \<notin> set v" "\<not> suffix ''fill='' v"
  shows "rewrite_fills (v @ CHR 0x22 # post) = with_prefix (v @ [CHR 0x22]) (rewrite_fills post)"
proof -
  have "rewrite_fills (v @ CHR 0x22 # post) = with_prefix v (rewrite_fills (CHR 0x22 # post))"
  proof (rule rewrite_skip)
    fix p' assume s: "suffix p' v" and n: "p' \<noteq> []"
    show \<open>\<not> prefix ''fill="'' (p' @ CHR 0x22 # post)\<close>
    proof
      assume p: \<open>prefix ''fill="'' (p' @ CHR 0x22 # post)\<close>
      from s assms(1) have "CHR 0x22 \<notin> set p'"
        by (auto simp: suffix_def)
      from this p have "p' = ''fill=''" by (rule fill_prefix_value)
      with s assms(2) show False by simp
    qed
  qed
  also have "rewrite_fills (CHR 0x22 # post) = with_prefix [CHR 0x22] (rewrite_fills post)"
    by (rule rewrite_fills_not_f) simp
  finally show ?thesis by (simp add: with_prefix_append)
qed

text \<open>Whatever the value hosts, the attribute and what follows it up to the next quotation mark stay.\<close>

lemma rewrite_fills_value_prefix:
  assumes "CHR 0x22 \<notin> set w" "prefix w post"
  shows "CHR 0x22 \<notin> set v \<Longrightarrow> rewrite_fills (v @ CHR 0x22 # post) = Inr out \<Longrightarrow>
    prefix (v @ CHR 0x22 # w) out"
proof (induction v arbitrary: out)
  case Nil
  have "rewrite_fills (CHR 0x22 # post) = with_prefix [CHR 0x22] (rewrite_fills post)"
    by (rule rewrite_fills_not_f) simp
  with Nil.prems(2) obtain out' where o: "rewrite_fills post = Inr out'" "out = CHR 0x22 # out'"
    by (cases "rewrite_fills post") auto
  from o(1) assms have "prefix w out'"
    by (rule rewrite_fills_keeps_prefix)
  with o show ?case by simp
next
  case (Cons x v)
  show ?case
  proof (cases "fill_match (x # v @ CHR 0x22 # post)")
    case None
    then have "rewrite_fills (x # v @ CHR 0x22 # post) =
        with_prefix [x] (rewrite_fills (v @ CHR 0x22 # post))"
      by (rule rewrite_fills_Cons_None)
    with Cons.prems(2) obtain out' where
      o: "rewrite_fills (v @ CHR 0x22 # post) = Inr out'" "out = x # out'"
      by (cases "rewrite_fills (v @ CHR 0x22 # post)") auto
    from Cons.IH [OF _ o(1)] Cons.prems(1) have "prefix (v @ CHR 0x22 # w) out'"
      by simp
    with o show ?thesis by simp
  next
    case (Some p)
    obtain fill rest where p: "p = (fill, rest)" by (cases p)
    from Some p have m: "fill_match ((x # v) @ CHR 0x22 # post) = Some (fill, rest)"
      by simp
    from fill_match_eq [OF m]
    have e: \<open>(x # v) @ CHR 0x22 # post = ''fill="'' @ fill @ CHR 0x22 # rest\<close>
      and q: "CHR 0x22 \<notin> set fill" by simp_all
    then have \<open>prefix ''fill="'' ((x # v) @ CHR 0x22 # post)\<close>
      by simp
    with Cons.prems(1) have v: "x # v = ''fill=''"
      by (rule fill_prefix_value)
    with e have post: "post = fill @ CHR 0x22 # rest"
      by simp
    have "prefix w (fill @ CHR 0x22 # rest) \<longleftrightarrow> prefix w fill"
      using assms(1) by (rule prefix_sep)
    with assms(2) post have wf: "prefix w fill"
      by simp
    from Cons.prems(2) m obtain rep out' where
      r: "replace_fill fill = Inr rep" "out = rep @ out'"
      using rewrite_fills_match [OF m]
      by (cases "replace_fill fill"; cases "rewrite_fills rest") auto
    from replace_fill_shape [OF r(1)] obtain t where
      t: \<open>rep = ''fill="'' @ fill @ t\<close>
      by auto
    from wf have "prefix w (fill @ t @ out')"
      by (rule prefix_prefix)
    with r t v show ?thesis by simp
  qed
qed

lemma rewrite_fills_skipped:
  assumes "CHR 0x22 \<notin> set v" "companion_follows post"
  shows \<open>rewrite_fills (''fill="'' @ v @ CHR 0x22 # post) =
    with_prefix ''fill="'' (rewrite_fills (v @ CHR 0x22 # post))\<close>
proof -
  from assms(1) have \<open>attr_match ''fill'' (''fill="'' @ v @ CHR 0x22 # post) = Some (v, post)\<close>
    by (rule attr_match_fill)
  with assms(2) have \<open>fill_match (''fill="'' @ v @ CHR 0x22 # post) = None\<close>
    by (simp add: fill_match_def)
  then have \<open>fill_match (CHR ''f'' # ''ill="'' @ v @ CHR 0x22 # post) = None\<close>
    by simp
  then have \<open>rewrite_fills (CHR ''f'' # ''ill="'' @ v @ CHR 0x22 # post) =
      with_prefix ''f'' (rewrite_fills (''ill="'' @ v @ CHR 0x22 # post))\<close>
    by (rule rewrite_fills_Cons_None)
  then show ?thesis
    by (simp add: rewrite_fills_not_f with_prefix_append del: rewrite_fills.simps)
qed

lemma rewrite_fills_matched:
  assumes "CHR 0x22 \<notin> set v" "\<not> companion_follows post"
  shows \<open>rewrite_fills (''fill="'' @ v @ CHR 0x22 # post) =
    (case invert_color v of
       Inl e \<Rightarrow> Inl e
     | Inr d \<Rightarrow> with_prefix (''fill="'' @ v @ ''" fill-dark="'' @ d @ ''"'') (rewrite_fills post))\<close>
proof -
  from assms(1) have \<open>attr_match ''fill'' (''fill="'' @ v @ CHR 0x22 # post) = Some (v, post)\<close>
    by (rule attr_match_fill)
  with assms(2) have \<open>fill_match (''fill="'' @ v @ CHR 0x22 # post) = Some (v, post)\<close>
    by (simp add: fill_match_def)
  then have \<open>rewrite_fills (''fill="'' @ v @ CHR 0x22 # post) =
      (case replace_fill v of
         Inl e \<Rightarrow> Inl e
       | Inr rep \<Rightarrow> with_prefix rep (rewrite_fills post))\<close>
    by (rule rewrite_fills_match)
  then show ?thesis
    by (simp add: replace_fill_def split: sum.splits del: rewrite_fills.simps)
qed

text \<open>
  The first \<open>fill="value"\<close> of a text given to the pass: no \<open>fill="\<close> in the text before
  it, no quotation mark in the value. An exception of \<open>invert_color\<close>, or of the pass on
  what follows, is the result of the pass.
\<close>

lemma rewrite_fills_first:
  assumes \<open>content = pre @ ''fill="'' @ v @ ''"'' @ post\<close>
    and \<open>\<not> sublist ''fill="'' pre\<close>
    and "CHR 0x22 \<notin> set v"
  shows \<open>(\<not> companion_follows post \<longrightarrow>
      rewrite_fills content =
        (case invert_color v of
           Inl e \<Rightarrow> Inl e
         | Inr d \<Rightarrow>
             with_prefix (pre @ ''fill="'' @ v @ ''"'' @ '' '' @ ''fill-dark="'' @ d @ ''"'')
               (rewrite_fills post))) \<and>
    (companion_follows post \<longrightarrow>
      (\<forall>out. rewrite_fills content = Inr out \<longrightarrow>
         prefix (pre @ ''fill="'' @ v @ ''"'' @ takeWhile re_space post @ ''fill-dark'') out) \<and>
      (\<not> suffix ''fill='' v \<longrightarrow>
         rewrite_fills content = with_prefix (pre @ ''fill="'' @ v @ ''"'') (rewrite_fills post)))\<close>
proof -
  have c: \<open>content = pre @ ''fill="'' @ (v @ CHR 0x22 # post)\<close>
    using assms(1) by simp
  have s: \<open>rewrite_fills content =
      with_prefix pre (rewrite_fills (''fill="'' @ (v @ CHR 0x22 # post)))\<close>
    unfolding c using assms(2) by (rule rewrite_skip_pre)
  show ?thesis
  proof (intro conjI impI allI)
    assume n: "\<not> companion_follows post"
    have m: \<open>rewrite_fills (''fill="'' @ (v @ CHR 0x22 # post)) =
        (case invert_color v of
           Inl e \<Rightarrow> Inl e
         | Inr d \<Rightarrow>
             with_prefix (''fill="'' @ v @ ''" fill-dark="'' @ d @ ''"'') (rewrite_fills post))\<close>
      using rewrite_fills_matched [OF assms(3) n] by (simp del: rewrite_fills.simps)
    show \<open>rewrite_fills content =
        (case invert_color v of
           Inl e \<Rightarrow> Inl e
         | Inr d \<Rightarrow>
             with_prefix (pre @ ''fill="'' @ v @ ''"'' @ '' '' @ ''fill-dark="'' @ d @ ''"'')
               (rewrite_fills post))\<close>
      unfolding s m by (cases "invert_color v") (simp_all add: with_prefix_append)
  next
    assume f: "companion_follows post"
    have \<open>rewrite_fills (''fill="'' @ (v @ CHR 0x22 # post)) =
        with_prefix ''fill="'' (rewrite_fills (v @ CHR 0x22 # post))\<close>
      using rewrite_fills_skipped [OF assms(3) f] by (simp del: rewrite_fills.simps)
    then have k: \<open>rewrite_fills content =
        with_prefix (pre @ ''fill="'') (rewrite_fills (v @ CHR 0x22 # post))\<close>
      unfolding s by (simp only: with_prefix_append)
    {
      fix out assume "rewrite_fills content = Inr out"
      with k obtain out' where o: "rewrite_fills (v @ CHR 0x22 # post) = Inr out'"
        \<open>out = (pre @ ''fill="'') @ out'\<close>
        by (cases "rewrite_fills (v @ CHR 0x22 # post)") auto
      from companion_prefix(2) [OF f] companion_prefix(1) [OF f] assms(3) o(1)
      have "prefix (v @ CHR 0x22 # (takeWhile re_space post @ ''fill-dark'')) out'"
        by (rule rewrite_fills_value_prefix)
      then have \<open>prefix
          ((pre @ ''fill="'') @ v @ CHR 0x22 # (takeWhile re_space post @ ''fill-dark''))
          ((pre @ ''fill="'') @ out')\<close>
        by (simp only: same_prefix_prefix)
      with o(2)
      show \<open>prefix (pre @ ''fill="'' @ v @ ''"'' @ takeWhile re_space post @ ''fill-dark'') out\<close>
        by simp
    }
    {
      assume "\<not> suffix ''fill='' v"
      with assms(3) have "rewrite_fills (v @ CHR 0x22 # post) =
          with_prefix (v @ [CHR 0x22]) (rewrite_fills post)"
        by (rule rewrite_fills_value)
      with k show \<open>rewrite_fills content =
          with_prefix (pre @ ''fill="'' @ v @ ''"'') (rewrite_fills post)\<close>
        by (simp add: with_prefix_append)
    }
  qed
qed

text \<open>The pass returns exactly when \<open>invert_color\<close> raises on none of the values it matches.\<close>

lemma rewrite_fills_returns_iff:
  "(\<exists>out. rewrite_fills s = Inr out) \<longleftrightarrow> list_all inverts (fill_values s)"
proof (induction s rule: rewrite_fills.induct)
  case 1
  show ?case by simp
next
  case (2 c cs)
  show ?case
  proof (cases "fill_match (c # cs)")
    case None
    with 2(1) show ?thesis
      by (auto split: sum.splits)
  next
    case (Some p)
    obtain fill rest where p: "p = (fill, rest)" by (cases p)
    show ?thesis
    proof (cases "invert_color fill")
      case (Inl e)
      then have "\<not> inverts fill"
        by (simp add: inverts_def)
      with Inl Some p show ?thesis
        by (simp add: replace_fill_def)
    next
      case (Inr d)
      then obtain rep where rep: "replace_fill fill = Inr rep"
        by (simp add: replace_fill_def)
      from 2(2) [OF Some [unfolded p] refl rep]
      have "(\<exists>out. rewrite_fills rest = Inr out) \<longleftrightarrow> list_all inverts (fill_values rest)" .
      moreover from Inr have "inverts fill"
        by (simp add: inverts_def)
      ultimately show ?thesis
        using Some p rep by (auto split: sum.splits)
    qed
  qed
qed

lemma well_formed_colors_invert:
  "list_all well_formed_color vs \<Longrightarrow> list_all inverts vs"
  by (induction vs) (auto simp: inverts_def dest: well_formed_color_inverts)

text \<open>
  C6 (as amended). The rewriting pass is applied to the document after style removal
  and attribute stripping. It returns exactly when \<open>invert_color\<close> raises on none of the
  fill values that it matches, as when each of them is \<open>black\<close> or \<open>white\<close>, or does not
  begin with \<open>#\<close>, or is \<open>#\<close> and six hexadecimal digits. When it returns, take the first
  \<open>fill="value"\<close> of the text: no \<open>fill="\<close> in the text before it, no quotation mark in
  the value. If what follows is not white space and then the text \<open>fill-dark\<close>, the
  output is the text before, the attribute with its value as it was, one space,
  \<open>fill-dark="\<close> with the inverted value and a quotation mark, and then the output of the
  pass on the text that follows. If white space and the text \<open>fill-dark\<close> do follow, the
  attribute, that white space and \<open>fill-dark\<close> are in the output as they were, nothing
  between them; and unless the value ends in \<open>fill=\<close> (then the value and what follows
  are an attribute of their own), the output is the text before, the attribute as it
  was, and the output of the pass on the text that follows.
\<close>

theorem fill_attribute_rewritten:
  assumes \<open>content = pre @ ''fill="'' @ v @ ''"'' @ post\<close>
    and \<open>\<not> sublist ''fill="'' pre\<close>
    and "CHR 0x22 \<notin> set v"
  shows \<open>((\<exists>out. rewrite_fills content = Inr out) \<longleftrightarrow>
       list_all inverts (fill_values content)) \<and>
    (list_all well_formed_color (fill_values content) \<longrightarrow>
       (\<exists>out. rewrite_fills content = Inr out)) \<and>
    (\<forall>out. rewrite_fills content = Inr out \<longrightarrow>
       (\<not> companion_follows post \<longrightarrow>
          (\<exists>d out'. invert_color v = Inr d \<and> rewrite_fills post = Inr out' \<and>
             out = pre @ ''fill="'' @ v @ ''"'' @ '' '' @ ''fill-dark="'' @ d @ ''"'' @ out')) \<and>
       (companion_follows post \<longrightarrow>
          prefix (pre @ ''fill="'' @ v @ ''"'' @ takeWhile re_space post @ ''fill-dark'') out \<and>
          (\<not> suffix ''fill='' v \<longrightarrow>
             (\<exists>out'. rewrite_fills post = Inr out' \<and>
                out = pre @ ''fill="'' @ v @ ''"'' @ out'))))\<close>
proof (intro conjI impI allI)
  show "(\<exists>out. rewrite_fills content = Inr out) \<longleftrightarrow> list_all inverts (fill_values content)"
    by (rule rewrite_fills_returns_iff)
next
  assume "list_all well_formed_color (fill_values content)"
  then have "list_all inverts (fill_values content)"
    by (rule well_formed_colors_invert)
  then show "\<exists>out. rewrite_fills content = Inr out"
    by (simp only: rewrite_fills_returns_iff)
next
  fix out assume r: "rewrite_fills content = Inr out" and n: "\<not> companion_follows post"
  from rewrite_fills_first [OF assms] n
  have \<open>rewrite_fills content =
      (case invert_color v of
         Inl e \<Rightarrow> Inl e
       | Inr d \<Rightarrow>
           with_prefix (pre @ ''fill="'' @ v @ ''"'' @ '' '' @ ''fill-dark="'' @ d @ ''"'')
             (rewrite_fills post))\<close>
    by blast
  with r obtain d where d: "invert_color v = Inr d"
    and w: \<open>with_prefix (pre @ ''fill="'' @ v @ ''"'' @ '' '' @ ''fill-dark="'' @ d @ ''"'')
        (rewrite_fills post) = Inr out\<close>
    by (cases "invert_color v") simp_all
  from w obtain out' where "rewrite_fills post = Inr out'"
    \<open>out = (pre @ ''fill="'' @ v @ ''"'' @ '' '' @ ''fill-dark="'' @ d @ ''"'') @ out'\<close>
    by (cases "rewrite_fills post") auto
  with d show \<open>\<exists>d out'. invert_color v = Inr d \<and> rewrite_fills post = Inr out' \<and>
      out = pre @ ''fill="'' @ v @ ''"'' @ '' '' @ ''fill-dark="'' @ d @ ''"'' @ out'\<close>
    by simp
next
  fix out assume r: "rewrite_fills content = Inr out" and f: "companion_follows post"
  from rewrite_fills_first [OF assms] f r
  show \<open>prefix (pre @ ''fill="'' @ v @ ''"'' @ takeWhile re_space post @ ''fill-dark'') out\<close>
    by blast
next
  fix out assume r: "rewrite_fills content = Inr out" and f: "companion_follows post"
    and e: "\<not> suffix ''fill='' v"
  from rewrite_fills_first [OF assms] f e
  have \<open>rewrite_fills content = with_prefix (pre @ ''fill="'' @ v @ ''"'') (rewrite_fills post)\<close>
    by blast
  with r obtain out' where "rewrite_fills post = Inr out'"
    \<open>out = (pre @ ''fill="'' @ v @ ''"'') @ out'\<close>
    by (cases "rewrite_fills post") auto
  then show \<open>\<exists>out'. rewrite_fills post = Inr out' \<and> out = pre @ ''fill="'' @ v @ ''"'' @ out'\<close>
    by simp
qed

theorem fill_attribute_rewritten_witness:
  \<open>\<not> sublist ''fill="'' ''<rect '' \<and> CHR 0x22 \<notin> set ''#000000'' \<and>
   \<not> companion_follows '' width="5"/>'' \<and>
   list_all well_formed_color (fill_values ''<rect fill="#000000" width="5"/>'') \<and>
   invert_color ''#000000'' = Inr ''#ffffff'' \<and>
   rewrite_fills '' width="5"/>'' = Inr '' width="5"/>'' \<and>
   rewrite_fills ''<rect fill="#000000" width="5"/>'' =
     Inr ''<rect fill="#000000" fill-dark="#ffffff" width="5"/>'' \<and>
   CHR 0x22 \<notin> set ''red'' \<and> companion_follows '' fill-dark/>'' \<and>
   \<not> suffix ''fill='' ''red'' \<and>
   list_all well_formed_color (fill_values ''<rect fill="red" fill-dark/>'') \<and>
   rewrite_fills '' fill-dark/>'' = Inr '' fill-dark/>'' \<and>
   rewrite_fills ''<rect fill="red" fill-dark/>'' = Inr ''<rect fill="red" fill-dark/>''\<close>
proof -
  have 1: \<open>\<not> sublist ''fill="'' ''<rect ''\<close>
    and 2: "CHR 0x22 \<notin> set ''#000000''"
    and 3: \<open>\<not> companion_follows '' width="5"/>''\<close>
    and 4: "CHR 0x22 \<notin> set ''red''"
    and 5: "companion_follows '' fill-dark/>''"
    and 6: "\<not> suffix ''fill='' ''red''"
    by code_simp+
  have a: \<open>''<rect fill="#000000" width="5"/>'' =
      ''<rect '' @ ''fill="'' @ ''#000000'' @ ''"'' @ '' width="5"/>''\<close>
    and b: \<open>''<rect fill="red" fill-dark/>'' =
      ''<rect '' @ ''fill="'' @ ''red'' @ ''"'' @ '' fill-dark/>''\<close>
    by simp_all
  have wa: \<open>list_all well_formed_color (fill_values ''<rect fill="#000000" width="5"/>'')\<close>
    and wb: \<open>list_all well_formed_color (fill_values ''<rect fill="red" fill-dark/>'')\<close>
    by code_simp+
  have i: "invert_color ''#000000'' = Inr ''#ffffff''"
    and pa: \<open>rewrite_fills '' width="5"/>'' = Inr '' width="5"/>''\<close>
    and pb: "rewrite_fills '' fill-dark/>'' = Inr '' fill-dark/>''"
    by code_simp+
  note ta = fill_attribute_rewritten [OF a 1 2]
  note tb = fill_attribute_rewritten [OF b 1 4]
  from ta wa obtain out where oa: \<open>rewrite_fills ''<rect fill="#000000" width="5"/>'' = Inr out\<close>
    by blast
  with ta 3 obtain d out' where "invert_color ''#000000'' = Inr d"
    \<open>rewrite_fills '' width="5"/>'' = Inr out'\<close>
    \<open>out = ''<rect '' @ ''fill="'' @ ''#000000'' @ ''"'' @ '' '' @ ''fill-dark="'' @ d @ ''"'' @ out'\<close>
    by blast
  with i pa have \<open>out = ''<rect fill="#000000" fill-dark="#ffffff" width="5"/>''\<close>
    by simp
  with oa have ra: \<open>rewrite_fills ''<rect fill="#000000" width="5"/>'' =
      Inr ''<rect fill="#000000" fill-dark="#ffffff" width="5"/>''\<close>
    by simp
  from tb wb obtain out where ob: \<open>rewrite_fills ''<rect fill="red" fill-dark/>'' = Inr out\<close>
    by blast
  with tb 5 6 obtain out' where "rewrite_fills '' fill-dark/>'' = Inr out'"
    \<open>out = ''<rect '' @ ''fill="'' @ ''red'' @ ''"'' @ out'\<close>
    by blast
  with pb have \<open>out = ''<rect fill="red" fill-dark/>''\<close>
    by simp
  with ob have rb: \<open>rewrite_fills ''<rect fill="red" fill-dark/>'' =
      Inr ''<rect fill="red" fill-dark/>''\<close>
    by simp
  from 1 2 3 4 5 6 wa wb i pa pb ra rb show ?thesis
    by blast
qed

text \<open>
  The claim C6 as it was written has every such occurrence replaced. Where
  \<open>invert_color\<close> raises on a value matched later in the text, the pass raises and the
  occurrence before it, which no companion follows, is not replaced: there is no
  output. And the lookahead asks for white space and the text \<open>fill-dark\<close>, not for an
  attribute of that name: a fill followed by an attribute \<open>fill-darker\<close> is left as it
  is, with no companion. And matches do not overlap: in \<open>fill="fill="x"\<close> the first
  match takes the value \<open>fill=\<close>, and the occurrence \<open>fill="x"\<close> that begins inside it
  gets no companion.
\<close>

theorem malformed_fill_stops_rewriting:
  \<open>stripped ''<p fill="black"/><p fill="#FFF"/>'' = ''<p fill="black"/><p fill="#FFF"/>'' \<and>
   \<not> companion_follows ''/><p fill="#FFF"/>'' \<and>
   rewrite_fills ''<p fill="black"/><p fill="#FFF"/>'' =
     Inl (ValueError ''invalid literal for int() with base 16'') \<and>
   add_dark_mode_attributes ''<p fill="black"/><p fill="#FFF"/>'' =
     Inl (ValueError ''invalid literal for int() with base 16'') \<and>
   stripped ''<a fill="red" fill-darker="x"/>'' = ''<a fill="red" fill-darker="x"/>'' \<and>
   rewrite_fills ''<a fill="red" fill-darker="x"/>'' = Inr ''<a fill="red" fill-darker="x"/>'' \<and>
   add_dark_mode_attributes ''<a fill="red" fill-darker="x"/>'' =
     Inr ''<a fill="red" fill-darker="x"/>'' \<and>
   rewrite_fills ''<a fill="fill="x"/>'' = Inr ''<a fill="fill=" fill-dark="fill="x"/>''\<close>
  by code_simp

section \<open>Applying the pipeline again\<close>

subsection \<open>Occurrences across a boundary\<close>

lemma no_straddle:
  assumes "\<not> sublist P x" "suffix p' x" "p' \<noteq> []" "T = [] \<or> hd T \<notin> set (tl P)"
  shows "\<not> prefix P (p' @ T)"
proof
  assume "prefix P (p' @ T)"
  then have "prefix P p' \<or> (\<exists>us. P = p' @ us \<and> prefix us T)"
    by (simp only: prefix_append)
  then show False
  proof
    assume "prefix P p'"
    with assms(2) have "sublist P x"
      by (meson prefix_imp_sublist sublist_order.order.trans suffix_imp_sublist)
    with assms(1) show False by simp
  next
    assume "\<exists>us. P = p' @ us \<and> prefix us T"
    then obtain us where us: "P = p' @ us" "prefix us T"
      by blast
    show False
    proof (cases us)
      case Nil
      with us assms(2) have "sublist P x"
        by (simp add: suffix_imp_sublist)
      with assms(1) show False by simp
    next
      case (Cons u us')
      with us(2) obtain T' where T: "T = u # T'"
        by (cases T) auto
      from assms(3) obtain a p'' where "p' = a # p''"
        by (cases p') auto
      with us(1) Cons have "u \<in> set (tl P)"
        by simp
      with T assms(4) show False by simp
    qed
  qed
qed

lemma no_sublist_append:
  assumes "\<not> sublist P x" "\<not> sublist P T" "T = [] \<or> hd T \<notin> set (tl P)"
  shows "\<not> sublist P (x @ T)"
  using assms(1)
proof (induction x)
  case Nil
  with assms(2) show ?case by simp
next
  case (Cons c x)
  then have n: "\<not> sublist P x"
    by (simp add: sublist_Cons_right)
  have "\<not> prefix P ((c # x) @ T)"
    using Cons.prems by (rule no_straddle) (use assms(3) in auto)
  with Cons.IH [OF n] show ?case
    by (simp add: sublist_Cons_right)
qed

text \<open>A text with no \<open>f\<close> hosts the start of no pattern that begins with \<open>f\<close>.\<close>

lemma no_start_without_f:
  assumes "CHR ''f'' \<notin> set x" "suffix p' x" "p' \<noteq> []" "prefix ''f'' P"
  shows "\<not> prefix P (p' @ T)"
proof
  assume p: "prefix P (p' @ T)"
  from assms(3) obtain a p'' where a: "p' = a # p''"
    by (cases p') auto
  with assms(1,2) have "a \<noteq> CHR ''f''"
    by (auto simp: suffix_def)
  moreover from assms(4) obtain P' where "P = CHR ''f'' # P'"
    by (auto simp: prefix_def)
  ultimately show False
    using p a by simp
qed

subsection \<open>Skipping text in which no match starts\<close>

lemma attr_match_None: \<open>\<not> prefix (name @ ''="'') s \<Longrightarrow> attr_match name s = None\<close>
  by (simp add: attr_match_def)

lemma strip_attr_skip:
  \<open>(\<And>p'. suffix p' x \<Longrightarrow> p' \<noteq> [] \<Longrightarrow> \<not> prefix (name @ ''="'') (p' @ T)) \<Longrightarrow>
     strip_attr name (x @ T) = x @ strip_attr name T\<close>
proof (induction x)
  case Nil
  show ?case by simp
next
  case (Cons c x)
  have \<open>\<not> prefix (name @ ''="'') ((c # x) @ T)\<close>
    by (rule Cons.prems) auto
  then have "attr_match name ((c # x) @ T) = None"
    by (rule attr_match_None)
  then have "strip_attr name ((c # x) @ T) = c # strip_attr name (x @ T)"
    by simp
  moreover have "strip_attr name (x @ T) = x @ strip_attr name T"
  proof (rule Cons.IH)
    fix p' assume "suffix p' x" "p' \<noteq> []"
    then show \<open>\<not> prefix (name @ ''="'') (p' @ T)\<close>
      using Cons.prems [of p'] by (simp add: suffix_Cons)
  qed
  ultimately show ?case by simp
qed

subsection \<open>The stripping passes on a simple document\<close>

lemma prefix_trans: "prefix a b \<Longrightarrow> prefix b c \<Longrightarrow> prefix a c"
  by (auto simp: prefix_def)

lemma layout_hd: "layout gap items = [] \<or> hd (layout gap items) = CHR ''f''"
  by (cases items) (auto simp: fill_attr_def)

lemma spaces_no_f: "CHR ''f'' \<notin> set (spaces n)"
  by (simp add: spaces_def)

lemma strip_attr_no_f:
  assumes "CHR ''f'' \<notin> set x" \<open>prefix ''f'' (name @ ''="'')\<close>
  shows "strip_attr name (x @ T) = x @ strip_attr name T"
proof (rule strip_attr_skip)
  fix p' assume "suffix p' x" "p' \<noteq> []"
  with assms(1) show \<open>\<not> prefix (name @ ''="'') (p' @ T)\<close>
    using assms(2) by (rule no_start_without_f)
qed

lemma strip_attr_value:
  assumes "plain_text v" \<open>prefix ''fill'' (name @ ''="'')\<close>
  shows "strip_attr name (v @ CHR 0x22 # T) = v @ strip_attr name (CHR 0x22 # T)"
proof (rule strip_attr_skip)
  fix p' assume s: "suffix p' v" and n: "p' \<noteq> []"
  from assms(1) have "\<not> sublist ''fill'' v"
    by (simp add: plain_text_def)
  from this s n have "\<not> prefix ''fill'' (p' @ CHR 0x22 # T)"
    by (rule no_straddle) simp
  with assms(2) show \<open>\<not> prefix (name @ ''="'') (p' @ CHR 0x22 # T)\<close>
    using prefix_trans by blast
qed

lemma strip_attr_segment:
  assumes \<open>\<not> sublist (name @ ''="'') seg\<close> \<open>CHR ''f'' \<notin> set (tl (name @ ''="''))\<close>
    "T = [] \<or> hd T = CHR ''f''"
  shows "strip_attr name (seg @ T) = seg @ strip_attr name T"
proof (rule strip_attr_skip)
  fix p' assume "suffix p' seg" "p' \<noteq> []"
  with assms(1) show \<open>\<not> prefix (name @ ''="'') (p' @ T)\<close>
    by (rule no_straddle) (use assms(2,3) in auto)
qed

lemma safe_text_dark: \<open>safe_text seg \<Longrightarrow> \<not> sublist (''fill-dark'' @ ''="'') seg\<close>
proof -
  assume "safe_text seg"
  then have "\<not> sublist ''fill-dark'' seg"
    by (simp add: safe_text_def)
  moreover have \<open>sublist ''fill-dark'' (''fill-dark'' @ ''="'')\<close>
    by (rule sublist_append_rightI)
  ultimately show ?thesis
    using sublist_order.order.trans by blast
qed

lemma safe_text_light: \<open>safe_text seg \<Longrightarrow> \<not> sublist (''fill-light'' @ ''="'') seg\<close>
  by (simp add: safe_text_def)

lemma strip_attr_safe:
  assumes "safe_text seg" "name = ''fill-dark'' \<or> name = ''fill-light''"
    "T = [] \<or> hd T = CHR ''f''"
  shows "strip_attr name (seg @ T) = seg @ strip_attr name T"
  using assms(2)
proof
  assume n: "name = ''fill-dark''"
  show ?thesis
    unfolding n using safe_text_dark [OF assms(1)] _ assms(3)
    by (rule strip_attr_segment) simp
next
  assume n: "name = ''fill-light''"
  show ?thesis
    unfolding n using safe_text_light [OF assms(1)] _ assms(3)
    by (rule strip_attr_segment) simp
qed

lemma strip_attr_fill_attr:
  assumes "plain_text v" "name = ''fill-dark'' \<or> name = ''fill-light''"
  shows "strip_attr name (fill_attr v @ T) = fill_attr v @ strip_attr name T"
proof -
  have p: \<open>prefix ''fill'' (name @ ''="'')\<close> and f: \<open>prefix ''f'' (name @ ''="'')\<close>
    using assms(2) by auto
  have 1: \<open>strip_attr name (CHR ''f'' # (''ill="'' @ v @ CHR 0x22 # T)) =
      CHR ''f'' # strip_attr name (''ill="'' @ v @ CHR 0x22 # T)\<close>
    using assms(2) by (auto simp: attr_match_def)
  have 2: \<open>strip_attr name (''ill="'' @ (v @ CHR 0x22 # T)) =
      ''ill="'' @ strip_attr name (v @ CHR 0x22 # T)\<close>
    by (rule strip_attr_no_f [OF _ f]) simp
  have 3: "strip_attr name (v @ CHR 0x22 # T) = v @ strip_attr name (CHR 0x22 # T)"
    using assms(1) p by (rule strip_attr_value)
  have 4: "strip_attr name ([CHR 0x22] @ T) = [CHR 0x22] @ strip_attr name T"
    by (rule strip_attr_no_f [OF _ f]) simp
  have \<open>fill_attr v @ T = CHR ''f'' # (''ill="'' @ v @ CHR 0x22 # T)\<close>
    by (simp add: fill_attr_def)
  then have \<open>strip_attr name (fill_attr v @ T) =
      CHR ''f'' # strip_attr name (''ill="'' @ (v @ CHR 0x22 # T))\<close>
    using 1 by simp
  also have \<open>\<dots> = CHR ''f'' # ''ill="'' @ v @ [CHR 0x22] @ strip_attr name T\<close>
    unfolding 2 3 using 4 by simp
  finally show ?thesis
    by (simp add: fill_attr_def)
qed

lemma strip_dark_companion:
  assumes "CHR 0x22 \<notin> set (dark_of v)"
  shows "strip_attr ''fill-dark'' (companion_of v @ T) = '' '' @ strip_attr ''fill-dark'' T"
proof -
  have \<open>attr_match ''fill-dark'' (''fill-dark="'' @ dark_of v @ CHR 0x22 # T) = Some (dark_of v, T)\<close>
    using split_at_quote [OF assms, of T] by (simp add: attr_match_def)
  then have \<open>strip_attr ''fill-dark'' (''fill-dark="'' @ dark_of v @ CHR 0x22 # T) =
      strip_attr ''fill-dark'' T\<close>
    by simp
  moreover have \<open>strip_attr ''fill-dark'' ('' '' @ (''fill-dark="'' @ dark_of v @ CHR 0x22 # T)) =
      '' '' @ strip_attr ''fill-dark'' (''fill-dark="'' @ dark_of v @ CHR 0x22 # T)\<close>
    by (rule strip_attr_no_f) simp_all
  moreover have \<open>companion_of v @ T = '' '' @ (''fill-dark="'' @ dark_of v @ CHR 0x22 # T)\<close>
    by (simp add: companion_of_def)
  ultimately show ?thesis
    by (simp only:)
qed

lemma good_value_dark: "good_value v \<Longrightarrow> plain_text (dark_of v) \<and> invert_color v = Inr (dark_of v)"
  by (auto simp: good_value_def dark_of_def split: sum.splits)

lemma strip_attr_layout:
  assumes "name = ''fill-dark'' \<or> name = ''fill-light''"
  shows "list_all (\<lambda>(v, seg). good_value v \<and> safe_text seg) items \<Longrightarrow>
    strip_attr name (layout (\<lambda>v. spaces n) items) = layout (\<lambda>v. spaces n) items"
proof (induction items)
  case Nil
  show ?case by simp
next
  case (Cons item items)
  obtain v seg where i: "item = (v, seg)" by (cases item)
  with Cons.prems have g: "plain_text v" and s: "safe_text seg"
    and r: "list_all (\<lambda>(v, seg). good_value v \<and> safe_text seg) items"
    by (auto simp: good_value_def)
  let ?L = "layout (\<lambda>v. spaces n) items"
  have f: \<open>prefix ''f'' (name @ ''="'')\<close>
    using assms by auto
  have "strip_attr name (fill_attr v @ (spaces n @ seg @ ?L)) =
      fill_attr v @ strip_attr name (spaces n @ seg @ ?L)"
    using g assms by (rule strip_attr_fill_attr)
  also have "strip_attr name (spaces n @ seg @ ?L) = spaces n @ strip_attr name (seg @ ?L)"
    using spaces_no_f f by (rule strip_attr_no_f)
  also have "strip_attr name (seg @ ?L) = seg @ strip_attr name ?L"
    using s assms layout_hd by (rule strip_attr_safe)
  also have "strip_attr name ?L = ?L"
    using r by (rule Cons.IH)
  finally show ?case
    using i by simp
qed

lemma strip_dark_layout:
  "list_all (\<lambda>(v, seg). good_value v \<and> safe_text seg) items \<Longrightarrow>
    strip_attr ''fill-dark'' (layout (\<lambda>v. companion_of v @ spaces n) items) =
      layout (\<lambda>v. spaces (Suc n)) items"
proof (induction items)
  case Nil
  show ?case by simp
next
  case (Cons item items)
  obtain v seg where i: "item = (v, seg)" by (cases item)
  with Cons.prems have g: "plain_text v" and d: "CHR 0x22 \<notin> set (dark_of v)"
    and s: "safe_text seg"
    and r: "list_all (\<lambda>(v, seg). good_value v \<and> safe_text seg) items"
    using good_value_dark [of v] by (auto simp: good_value_def plain_text_def)
  let ?L = "layout (\<lambda>v. companion_of v @ spaces n) items"
  let ?S = "strip_attr ''fill-dark''"
  have "?S (fill_attr v @ (companion_of v @ spaces n @ seg @ ?L)) =
      fill_attr v @ ?S (companion_of v @ spaces n @ seg @ ?L)"
    using g by (rule strip_attr_fill_attr) simp
  also have "?S (companion_of v @ spaces n @ seg @ ?L) = '' '' @ ?S (spaces n @ seg @ ?L)"
    using d by (rule strip_dark_companion)
  also have "?S (spaces n @ seg @ ?L) = spaces n @ ?S (seg @ ?L)"
    using spaces_no_f by (rule strip_attr_no_f) simp
  also have "?S (seg @ ?L) = seg @ ?S ?L"
    using s _ layout_hd by (rule strip_attr_safe) simp
  also have "?S ?L = layout (\<lambda>v. spaces (Suc n)) items"
    using r by (rule Cons.IH)
  finally show ?case
    using i by (simp add: spaces_def)
qed

subsection \<open>The rewriting pass on a simple document\<close>

lemma rewrite_fills_no_f:
  assumes "CHR ''f'' \<notin> set x"
  shows "rewrite_fills (x @ T) = with_prefix x (rewrite_fills T)"
proof (rule rewrite_skip)
  fix p' assume "suffix p' x" "p' \<noteq> []"
  with assms show \<open>\<not> prefix ''fill="'' (p' @ T)\<close>
    by (rule no_start_without_f) simp
qed

lemma rewrite_fills_safe:
  assumes "safe_text seg" "T = [] \<or> hd T = CHR ''f''"
  shows "rewrite_fills (seg @ T) = with_prefix seg (rewrite_fills T)"
proof (rule rewrite_skip)
  fix p' assume p: "suffix p' seg" "p' \<noteq> []"
  from assms(1) have \<open>\<not> sublist ''fill="'' seg\<close>
    by (simp add: safe_text_def)
  from this p show \<open>\<not> prefix ''fill="'' (p' @ T)\<close>
    by (rule no_straddle) (use assms(2) in auto)
qed

lemma re_space_space: "re_space CHR '' ''"
  by code_simp

lemma not_re_space_f: "\<not> re_space CHR ''f''"
  by code_simp

lemma dropWhile_spaces: "dropWhile re_space (spaces n @ s) = dropWhile re_space s"
  by (induction n) (simp_all add: spaces_def re_space_space)

lemma layout_prefix: \<open>layout gap items = [] \<or> prefix ''fill="'' (layout gap items)\<close>
  by (cases items) (auto simp: fill_attr_def)

lemma no_companion_ahead:
  assumes "safe_text seg" \<open>T = [] \<or> prefix ''fill="'' T\<close>
  shows "\<not> prefix ''fill-dark'' (dropWhile re_space (seg @ T))"
proof (cases "\<forall>x \<in> set seg. re_space x")
  case True
  then have d: "dropWhile re_space (seg @ T) = dropWhile re_space T"
    by simp
  from assms(2) show ?thesis
  proof
    assume "T = []"
    with True have e: "dropWhile re_space (seg @ T) = []"
      by simp
    show ?thesis
      unfolding e by simp
  next
    assume \<open>prefix ''fill="'' T\<close>
    then obtain z where \<open>T = ''fill="'' @ z\<close>
      by (auto simp: prefix_def)
    with d show ?thesis
      by (simp add: not_re_space_f)
  qed
next
  case False
  then have d: "dropWhile re_space (seg @ T) = dropWhile re_space seg @ T"
    by (auto simp: dropWhile_append)
  from False have n: "dropWhile re_space seg \<noteq> []"
    by (simp add: dropWhile_eq_Nil_conv)
  have s: "suffix (dropWhile re_space seg) seg"
    by (rule suffix_dropWhile)
  from assms(1) have "\<not> sublist ''fill-dark'' seg"
    by (simp add: safe_text_def)
  from this s n have "\<not> prefix ''fill-dark'' (dropWhile re_space seg @ T)"
    by (rule no_straddle) (use assms(2) in \<open>auto simp: prefix_def\<close>)
  with d show ?thesis by simp
qed

lemma no_companion_follows:
  assumes "safe_text seg" \<open>T = [] \<or> prefix ''fill="'' T\<close>
  shows "\<not> companion_follows (spaces n @ seg @ T)"
  using no_companion_ahead [OF assms]
  by (simp add: companion_follows_def dropWhile_spaces)

lemma rewrite_fills_fill_attr:
  assumes "good_value v" "\<not> companion_follows T"
  shows "rewrite_fills (fill_attr v @ T) =
    with_prefix (fill_attr v @ companion_of v) (rewrite_fills T)"
proof -
  from assms(1) have q: "CHR 0x22 \<notin> set v" and i: "invert_color v = Inr (dark_of v)"
    using good_value_dark [of v] by (auto simp: good_value_def plain_text_def)
  have \<open>fill_attr v @ T = ''fill="'' @ v @ CHR 0x22 # T\<close>
    by (simp add: fill_attr_def)
  moreover have \<open>fill_attr v @ companion_of v =
      ''fill="'' @ v @ ''" fill-dark="'' @ dark_of v @ ''"''\<close>
    by (simp add: fill_attr_def companion_of_def)
  ultimately show ?thesis
    using rewrite_fills_matched [OF q assms(2)] i by (simp del: rewrite_fills.simps)
qed

lemma rewrite_fills_layout:
  "list_all (\<lambda>(v, seg). good_value v \<and> safe_text seg) items \<Longrightarrow>
    rewrite_fills (layout (\<lambda>v. spaces n) items) =
      Inr (layout (\<lambda>v. companion_of v @ spaces n) items)"
proof (induction items)
  case Nil
  show ?case by simp
next
  case (Cons item items)
  obtain v seg where i: "item = (v, seg)" by (cases item)
  with Cons.prems have g: "good_value v" and s: "safe_text seg"
    and r: "list_all (\<lambda>(v, seg). good_value v \<and> safe_text seg) items"
    by auto
  let ?L = "layout (\<lambda>v. spaces n) items"
  have "\<not> companion_follows (spaces n @ seg @ ?L)"
    using s layout_prefix by (rule no_companion_follows)
  with g have "rewrite_fills (fill_attr v @ (spaces n @ seg @ ?L)) =
      with_prefix (fill_attr v @ companion_of v) (rewrite_fills (spaces n @ seg @ ?L))"
    by (rule rewrite_fills_fill_attr)
  also have "rewrite_fills (spaces n @ seg @ ?L) = with_prefix (spaces n) (rewrite_fills (seg @ ?L))"
    using spaces_no_f by (rule rewrite_fills_no_f)
  also have "rewrite_fills (seg @ ?L) = with_prefix seg (rewrite_fills ?L)"
    using s layout_hd by (rule rewrite_fills_safe)
  also have "rewrite_fills ?L = Inr (layout (\<lambda>v. companion_of v @ spaces n) items)"
    using r by (rule Cons.IH)
  finally show ?case
    using i by simp
qed

subsection \<open>No style tag in a simple document\<close>

lemma no_style_sep:
  assumes "c \<notin> set ''<style>''" "\<not> sublist ''<style>'' x" "\<not> sublist ''<style>'' y"
  shows "\<not> sublist ''<style>'' (x @ c # y)"
  using assms sublist_sep [of c "''<style>''" x y] by blast

lemma no_style_fill_attr:
  assumes "plain_text v" "\<not> sublist ''<style>'' R"
  shows "\<not> sublist ''<style>'' (fill_attr v @ R)"
proof -
  from assms have a: "\<not> sublist ''<style>'' (v @ CHR 0x22 # R)"
    by (intro no_style_sep) (simp_all add: plain_text_def)
  have b: "\<not> sublist ''<style>'' ''fill=''"
    by code_simp
  have "\<not> sublist ''<style>'' (''fill='' @ CHR 0x22 # (v @ CHR 0x22 # R))"
    by (rule no_style_sep) (simp, rule b, rule a)
  then show ?thesis
    by (simp add: fill_attr_def)
qed

lemma no_style_companion:
  assumes "plain_text (dark_of v)" "\<not> sublist ''<style>'' R"
  shows "\<not> sublist ''<style>'' (companion_of v @ R)"
proof -
  from assms have a: "\<not> sublist ''<style>'' (dark_of v @ CHR 0x22 # R)"
    by (intro no_style_sep) (simp_all add: plain_text_def)
  have b: "\<not> sublist ''<style>'' '' fill-dark=''"
    by code_simp
  have "\<not> sublist ''<style>'' ('' fill-dark='' @ CHR 0x22 # (dark_of v @ CHR 0x22 # R))"
    by (rule no_style_sep) (simp, rule b, rule a)
  then show ?thesis
    by (simp add: companion_of_def)
qed

lemma no_style_spaces:
  "\<not> sublist ''<style>'' R \<Longrightarrow> \<not> sublist ''<style>'' (spaces n @ R)"
proof (induction n)
  case 0
  then show ?case by (simp add: spaces_def)
next
  case (Suc n)
  then have "\<not> sublist ''<style>'' ([] @ CHR '' '' # (spaces n @ R))"
    by (intro no_style_sep) simp_all
  then show ?case by (simp add: spaces_def)
qed

lemma no_style_safe:
  assumes "safe_text seg" "\<not> sublist ''<style>'' T" "T = [] \<or> hd T = CHR ''f''"
  shows "\<not> sublist ''<style>'' (seg @ T)"
proof (rule no_sublist_append)
  show "\<not> sublist ''<style>'' seg"
    using assms(1) by (simp add: safe_text_def)
  show "T = [] \<or> hd T \<notin> set (tl ''<style>'')"
    using assms(3) by auto
qed (rule assms(2))

lemma no_style_layout:
  assumes "\<And>v R. good_value v \<Longrightarrow> \<not> sublist ''<style>'' R \<Longrightarrow> \<not> sublist ''<style>'' (gap v @ R)"
  shows "list_all (\<lambda>(v, seg). good_value v \<and> safe_text seg) items \<Longrightarrow>
    \<not> sublist ''<style>'' (layout gap items)"
proof (induction items)
  case Nil
  show ?case by simp
next
  case (Cons item items)
  obtain v seg where i: "item = (v, seg)" by (cases item)
  with Cons.prems have g: "good_value v" and s: "safe_text seg"
    and r: "list_all (\<lambda>(v, seg). good_value v \<and> safe_text seg) items"
    by auto
  from r have "\<not> sublist ''<style>'' (layout gap items)"
    by (rule Cons.IH)
  with s have "\<not> sublist ''<style>'' (seg @ layout gap items)"
    using layout_hd by (rule no_style_safe)
  with g have "\<not> sublist ''<style>'' (gap v @ seg @ layout gap items)"
    by (rule assms)
  with g have "\<not> sublist ''<style>'' (fill_attr v @ gap v @ seg @ layout gap items)"
    by (intro no_style_fill_attr) (simp_all add: good_value_def)
  with i show ?case by simp
qed

lemma no_style_plain_document:
  assumes "simple_document seg0 items"
  shows "\<not> sublist ''<style>'' (seg0 @ layout (\<lambda>v. spaces n) items)"
proof -
  from assms have s: "safe_text seg0"
    and r: "list_all (\<lambda>(v, seg). good_value v \<and> safe_text seg) items"
    by (simp_all add: simple_document_def)
  have "\<not> sublist ''<style>'' (layout (\<lambda>v. spaces n) items)"
    using _ r by (rule no_style_layout) (rule no_style_spaces)
  with s show ?thesis
    using layout_hd by (rule no_style_safe)
qed

lemma no_style_annotated_document:
  assumes "simple_document seg0 items"
  shows "\<not> sublist ''<style>'' (seg0 @ layout (\<lambda>v. companion_of v @ spaces n) items)"
proof -
  from assms have s: "safe_text seg0"
    and r: "list_all (\<lambda>(v, seg). good_value v \<and> safe_text seg) items"
    by (simp_all add: simple_document_def)
  have "\<not> sublist ''<style>'' (layout (\<lambda>v. companion_of v @ spaces n) items)"
    using _ r
  proof (rule no_style_layout)
    fix v R assume "good_value v" "\<not> sublist ''<style>'' R"
    then have "\<not> sublist ''<style>'' (companion_of v @ (spaces n @ R))"
      using good_value_dark [of v] by (intro no_style_companion no_style_spaces) simp_all
    then show "\<not> sublist ''<style>'' ((companion_of v @ spaces n) @ R)"
      by simp
  qed
  with s show ?thesis
    using layout_hd by (rule no_style_safe)
qed

subsection \<open>One application and the next\<close>

lemma add_dark_no_style:
  assumes "\<not> sublist ''<style>'' s"
  shows "add_dark_mode_attributes s =
    rewrite_fills (strip_attr ''fill-light'' (strip_attr ''fill-dark'' s))"
proof -
  from assms have f: "find_styles s = []"
    by (rule find_styles_none)
  then have "remove_styles s = s" "preserved s = []"
    by (simp_all add: remove_styles_none preserved_def)
  then show ?thesis
    by (cases "rewrite_fills (strip_attr ''fill-light'' (strip_attr ''fill-dark'' s))")
      (simp_all add: add_dark_mode_attributes_def stripped_def reinsert_Nil)
qed

lemma rewrite_plain_document:
  assumes "simple_document seg0 items"
  shows "rewrite_fills (seg0 @ layout (\<lambda>v. spaces n) items) =
    Inr (seg0 @ layout (\<lambda>v. companion_of v @ spaces n) items)"
proof -
  from assms have s: "safe_text seg0"
    and r: "list_all (\<lambda>(v, seg). good_value v \<and> safe_text seg) items"
    by (simp_all add: simple_document_def)
  have "rewrite_fills (seg0 @ layout (\<lambda>v. spaces n) items) =
      with_prefix seg0 (rewrite_fills (layout (\<lambda>v. spaces n) items))"
    using s layout_hd by (rule rewrite_fills_safe)
  then show ?thesis
    using rewrite_fills_layout [OF r, of n] by simp
qed

lemma strip_plain_document:
  assumes "simple_document seg0 items" "name = ''fill-dark'' \<or> name = ''fill-light''"
  shows "strip_attr name (seg0 @ layout (\<lambda>v. spaces n) items) =
    seg0 @ layout (\<lambda>v. spaces n) items"
proof -
  from assms have s: "safe_text seg0"
    and r: "list_all (\<lambda>(v, seg). good_value v \<and> safe_text seg) items"
    by (simp_all add: simple_document_def)
  have "strip_attr name (seg0 @ layout (\<lambda>v. spaces n) items) =
      seg0 @ strip_attr name (layout (\<lambda>v. spaces n) items)"
    using s assms(2) layout_hd by (rule strip_attr_safe)
  then show ?thesis
    using strip_attr_layout [OF assms(2) r, of n] by simp
qed

lemma strip_annotated_document:
  assumes "simple_document seg0 items"
  shows "strip_attr ''fill-dark'' (seg0 @ layout (\<lambda>v. companion_of v @ spaces n) items) =
    seg0 @ layout (\<lambda>v. spaces (Suc n)) items"
proof -
  from assms have s: "safe_text seg0"
    and r: "list_all (\<lambda>(v, seg). good_value v \<and> safe_text seg) items"
    by (simp_all add: simple_document_def)
  have "strip_attr ''fill-dark'' (seg0 @ layout (\<lambda>v. companion_of v @ spaces n) items) =
      seg0 @ strip_attr ''fill-dark'' (layout (\<lambda>v. companion_of v @ spaces n) items)"
    using s _ layout_hd by (rule strip_attr_safe) simp
  then show ?thesis
    using strip_dark_layout [OF r, of n] by simp
qed

lemma next_application:
  assumes "simple_document seg0 items"
  shows "add_dark_mode_attributes (seg0 @ layout (\<lambda>v. companion_of v @ spaces n) items) =
    Inr (seg0 @ layout (\<lambda>v. companion_of v @ spaces (Suc n)) items)"
  using no_style_annotated_document [OF assms, of n]
  by (simp add: add_dark_no_style strip_annotated_document [OF assms]
      strip_plain_document [OF assms] rewrite_plain_document [OF assms])

lemma first_application:
  assumes "simple_document seg0 items"
  shows "add_dark_mode_attributes (seg0 @ layout (\<lambda>v. []) items) =
    Inr (seg0 @ layout (\<lambda>v. companion_of v @ spaces 0) items)"
proof -
  have e: "(\<lambda>v. []) = (\<lambda>v. spaces 0)"
    by (simp add: spaces_def)
  show ?thesis
    unfolding e using no_style_plain_document [OF assms, of 0]
    by (simp add: add_dark_no_style strip_plain_document [OF assms]
        rewrite_plain_document [OF assms])
qed

text \<open>
  On every simple document the pipeline puts one \<open>fill-dark\<close> companion after each fill
  attribute and changes nothing else (\<open>first_application\<close>). Applied to a document so
  annotated, it gives the same attributes, each with its one companion, and one more
  space after each companion than there was (\<open>next_application\<close>): the strip pattern
  takes the companion and leaves the space that the rewriting had put before it.
\<close>

lemma applications_differ:
  assumes "simple_document seg0 items" "items \<noteq> []"
  shows "seg0 @ layout (\<lambda>v. companion_of v @ spaces (Suc n)) items \<noteq>
    seg0 @ layout (\<lambda>v. companion_of v @ spaces n) items"
proof -
  have "length (layout (\<lambda>v. companion_of v @ spaces (Suc n)) its) =
      length (layout (\<lambda>v. companion_of v @ spaces n) its) + length its" for its
    by (induction its) (auto simp: spaces_def)
  with assms(2) have "length (layout (\<lambda>v. companion_of v @ spaces (Suc n)) items) \<noteq>
      length (layout (\<lambda>v. companion_of v @ spaces n) items)"
    by simp
  then show ?thesis
    by auto
qed

lemma reapplication_changes_simple_document:
  assumes "simple_document seg0 items" "items \<noteq> []"
  shows "\<exists>t u. add_dark_mode_attributes (seg0 @ layout (\<lambda>v. []) items) = Inr t \<and>
    add_dark_mode_attributes t = Inr u \<and> u \<noteq> t"
  using first_application [OF assms(1)] next_application [OF assms(1), of 0]
    applications_differ [OF assms, of 0]
  by blast

text \<open>
  C2. The claim asks that a second application of the pipeline gives the same string as
  the first. The pipeline is written for repeated application: it strips the companions
  of an earlier application before it rewrites, and the rewriting skips a fill that a
  companion follows. At the example of its docstring, \<open><path fill="#000000"/>\<close>, the
  first application gives \<open><path fill="#000000" fill-dark="#ffffff"/>\<close>, the second gives
  that string with a space before \<open>/>\<close>, and the third with two spaces: no application
  gives the string it was given. The companion is not duplicated.
\<close>

theorem second_application_adds_space:
  \<open>add_dark_mode_attributes ''<path fill="#000000"/>'' =
     Inr ''<path fill="#000000" fill-dark="#ffffff"/>'' \<and>
   add_dark_mode_attributes ''<path fill="#000000" fill-dark="#ffffff"/>'' =
     Inr ''<path fill="#000000" fill-dark="#ffffff" />'' \<and>
   ''<path fill="#000000" fill-dark="#ffffff" />'' \<noteq> ''<path fill="#000000" fill-dark="#ffffff"/>'' \<and>
   add_dark_mode_attributes ''<path fill="#000000" fill-dark="#ffffff" />'' =
     Inr ''<path fill="#000000" fill-dark="#ffffff"  />''\<close>
  by code_simp

text \<open>
  The same happens in a document with a preserved style block, and in one that came with
  a companion of its own. Apart from the space, where the removal of a style block closes
  the text around it up into a new style element, a second application removes that one
  and moves the preserved text.
\<close>

lemma second_application_other_documents:
  \<open>add_dark_mode_attributes ''<svg><style>.a{}</style><path fill="black"/></svg>'' =
     Inr ''<svg><style>.a{}</style><path fill="black" fill-dark="white"/></svg>'' \<and>
   add_dark_mode_attributes ''<svg><style>.a{}</style><path fill="black" fill-dark="white"/></svg>'' =
     Inr ''<svg><style>.a{}</style><path fill="black" fill-dark="white" /></svg>'' \<and>
   add_dark_mode_attributes ''<p fill="black" fill-dark="red"/>'' =
     Inr ''<p fill="black" fill-dark="white" />'' \<and>
   add_dark_mode_attributes ''<p fill="black" fill-dark="white" />'' =
     Inr ''<p fill="black" fill-dark="white"  />'' \<and>
   add_dark_mode_attributes ''<sty<style>x</style>le>a</style>'' =
     Inr ''<style><style>x</style>a</style>'' \<and>
   add_dark_mode_attributes ''<style><style>x</style>a</style>'' =
     Inr ''a</style><style><style>x</style>''\<close>
  by code_simp

section \<open>The batch driver\<close>

lemma process_svg_file_attempted:
  "attempted (fst (process_svg_file fs src dst)) = [src]"
  by (simp add: process_svg_file_def split: svg_file.splits sum.splits)

lemma process_svg_file_caught:
  "\<not> rejected fs src \<Longrightarrow>
     snd (process_svg_file fs src dst) = Inr () \<or>
     snd (process_svg_file fs src dst) = Inl IOError \<or>
     snd (process_svg_file fs src dst) = Inl UnicodeDecodeError"
  by (simp add: process_svg_file_def rejected_def split: svg_file.splits sum.splits)

lemma attempted_append: "attempted (xs @ ys) = attempted xs @ attempted ys"
  by (induction xs rule: attempted.induct) auto

lemma process_files_all:
  assumes "\<forall>f \<in> set (svg_names names). \<not> rejected fs (path_join s f)"
  shows "\<exists>evs errs. process_files fs s d names errors = (evs, Inr (errors @ errs)) \<and>
    attempted evs = map (path_join s) (svg_names names) \<and>
    map fst errs = filter (fails fs s d) (svg_names names)"
  using assms
proof (induction names arbitrary: errors)
  case Nil
  then show ?case by (simp add: svg_names_def)
next
  case (Cons f names)
  show ?case
  proof (cases "suffix ''.svg'' f")
    case False
    with Cons show ?thesis by (simp add: svg_names_def)
  next
    case True
    obtain evs r where p: "process_svg_file fs (path_join s f) (path_join d f) = (evs, r)"
      by (cases "process_svg_file fs (path_join s f) (path_join d f)")
    from Cons.prems True have nr: "\<not> rejected fs (path_join s f)"
      and rest: "\<forall>f \<in> set (svg_names names). \<not> rejected fs (path_join s f)"
      by (auto simp: svg_names_def)
    from process_svg_file_attempted [of fs "path_join s f" "path_join d f"] p
    have a: "attempted evs = [path_join s f]" by simp
    from process_svg_file_caught [OF nr, of "path_join d f"] p
    consider "r = Inr ()" | "r = Inl IOError" | "r = Inl UnicodeDecodeError" by auto
    then show ?thesis
    proof cases
      case 1
      from Cons.IH [OF rest, of errors] obtain evs' errs where
        "process_files fs s d names errors = (evs', Inr (errors @ errs))"
        "attempted evs' = map (path_join s) (svg_names names)"
        "map fst errs = filter (fails fs s d) (svg_names names)" by blast
      with 1 p a True show ?thesis
        by (simp add: svg_names_def fails_def attempted_append)
    next
      case 2
      from Cons.IH [OF rest, of "errors @ [(f, IOError)]"] obtain evs' errs where
        "process_files fs s d names (errors @ [(f, IOError)]) = (evs', Inr ((errors @ [(f, IOError)]) @ errs))"
        "attempted evs' = map (path_join s) (svg_names names)"
        "map fst errs = filter (fails fs s d) (svg_names names)" by blast
      with 2 p a True show ?thesis
        by (intro exI [of _ "evs @ evs'"] exI [of _ "(f, IOError) # errs"])
          (simp add: svg_names_def fails_def attempted_append)
    next
      case 3
      from Cons.IH [OF rest, of "errors @ [(f, UnicodeDecodeError)]"] obtain evs' errs where
        "process_files fs s d names (errors @ [(f, UnicodeDecodeError)]) = (evs', Inr ((errors @ [(f, UnicodeDecodeError)]) @ errs))"
        "attempted evs' = map (path_join s) (svg_names names)"
        "map fst errs = filter (fails fs s d) (svg_names names)" by blast
      with 3 p a True show ?thesis
        by (intro exI [of _ "evs @ evs'"] exI [of _ "(f, UnicodeDecodeError) # errs"])
          (simp add: svg_names_def fails_def attempted_append)
    qed
  qed
qed

text \<open>
  The pipeline raises nothing but the \<open>ValueError\<close> of \<open>int\<close>, which the loop does not
  catch: the batch ends at the first file whose text the pipeline rejects.
\<close>

lemma py_int16_error: "py_int16 s = Inl e \<Longrightarrow> e = invalid_literal"
  by (auto simp: py_int16_def Let_def split: if_splits option.splits prod.splits)

lemma hex_to_rgb_error: "hex_to_rgb s = Inl e \<Longrightarrow> e = invalid_literal"
  by (auto simp: hex_to_rgb_def Let_def dest: py_int16_error split: sum.splits)

lemma invert_color_error: "invert_color c = Inl e \<Longrightarrow> e = invalid_literal"
  by (auto simp: invert_color_def dest: hex_to_rgb_error split: option.splits if_splits sum.splits)

lemma rewrite_fills_error: "rewrite_fills s = Inl e \<Longrightarrow> e = invalid_literal"
proof (induction s rule: rewrite_fills.induct)
  case 1
  then show ?case by simp
next
  case (2 c cs)
  show ?case
  proof (cases "fill_match (c # cs)")
    case None
    with 2(1,3) show ?thesis
      by (auto split: sum.splits)
  next
    case (Some p)
    obtain fill rest where p: "p = (fill, rest)" by (cases p)
    show ?thesis
    proof (cases "replace_fill fill")
      case (Inl e')
      with Some p 2(3) have "e = e'" by simp
      with Inl show ?thesis
        by (auto simp: replace_fill_def dest: invert_color_error split: sum.splits)
    next
      case (Inr rep)
      with Some p 2(3) have "rewrite_fills rest = Inl e"
        by (auto split: sum.splits)
      with 2(2) [OF Some [unfolded p] refl Inr] show ?thesis .
    qed
  qed
qed

lemma add_dark_mode_attributes_error:
  "add_dark_mode_attributes s = Inl e \<Longrightarrow> e = invalid_literal"
  by (auto simp: add_dark_mode_attributes_def dest: rewrite_fills_error split: sum.splits)

lemma process_svg_file_rejected:
  "rejected fs src \<Longrightarrow> process_svg_file fs src dst = ([Opened src], Inl invalid_literal)"
  by (auto simp: rejected_def process_svg_file_def dest: add_dark_mode_attributes_error
      split: svg_file.splits sum.splits)

lemma invalid_literal_not_caught:
  "invalid_literal \<noteq> IOError" "invalid_literal \<noteq> UnicodeDecodeError"
  by (simp_all add: invalid_literal_def)

lemma process_files_rejected:
  assumes "suffix ''.svg'' f" "rejected fs (path_join s f)"
  shows "\<forall>g \<in> set (svg_names before). \<not> rejected fs (path_join s g) \<Longrightarrow>
    \<exists>evs. process_files fs s d (before @ f # after) errors = (evs, Inl invalid_literal) \<and>
      attempted evs = map (path_join s) (svg_names before @ [f])"
proof (induction before arbitrary: errors)
  case Nil
  from assms show ?case
    by (simp add: process_svg_file_rejected invalid_literal_not_caught svg_names_def)
next
  case (Cons g before)
  show ?case
  proof (cases "suffix ''.svg'' g")
    case False
    with Cons show ?thesis by (simp add: svg_names_def)
  next
    case True
    obtain evs r where p: "process_svg_file fs (path_join s g) (path_join d g) = (evs, r)"
      by (cases "process_svg_file fs (path_join s g) (path_join d g)")
    from Cons.prems True have nr: "\<not> rejected fs (path_join s g)"
      and rest: "\<forall>g \<in> set (svg_names before). \<not> rejected fs (path_join s g)"
      by (auto simp: svg_names_def)
    from process_svg_file_attempted [of fs "path_join s g" "path_join d g"] p
    have a: "attempted evs = [path_join s g]" by simp
    from process_svg_file_caught [OF nr, of "path_join d g"] p
    consider "r = Inr ()" | "r = Inl IOError" | "r = Inl UnicodeDecodeError" by auto
    then show ?thesis
    proof cases
      case 1
      from Cons.IH [OF rest, of errors] obtain evs' where
        "process_files fs s d (before @ f # after) errors = (evs', Inl invalid_literal)"
        "attempted evs' = map (path_join s) (svg_names before @ [f])" by blast
      with 1 p a True show ?thesis
        by (simp add: svg_names_def attempted_append)
    next
      case 2
      from Cons.IH [OF rest, of "errors @ [(g, IOError)]"] obtain evs' where
        "process_files fs s d (before @ f # after) (errors @ [(g, IOError)]) =
           (evs', Inl invalid_literal)"
        "attempted evs' = map (path_join s) (svg_names before @ [f])" by blast
      with 2 p a True show ?thesis
        by (simp add: svg_names_def attempted_append)
    next
      case 3
      from Cons.IH [OF rest, of "errors @ [(g, UnicodeDecodeError)]"] obtain evs' where
        "process_files fs s d (before @ f # after) (errors @ [(g, UnicodeDecodeError)]) =
           (evs', Inl invalid_literal)"
        "attempted evs' = map (path_join s) (svg_names before @ [f])" by blast
      with 3 p a True show ?thesis
        by (simp add: svg_names_def attempted_append)
    qed
  qed
qed

text \<open>
  C8 (as amended). If the source path is not a directory, \<open>process_folder\<close> raises the
  validation error at once: nothing is created and no file is opened. On a source
  directory that can be listed, with a destination that can be created, where no \<open>.svg\<close>
  file holds text on which the pipeline raises, every failure of a file is an \<open>IOError\<close>
  or a \<open>UnicodeDecodeError\<close>, and every \<open>.svg\<close> name of the listing is attempted, in
  order, whatever failed before it; then the result is success if no file failed, and
  otherwise one \<open>ValueError\<close> whose message holds the number of files that failed. Where
  a \<open>.svg\<close> file does hold such text, the \<open>.svg\<close> names before the first such file and
  that file are attempted, whatever failed before it, and the result is the \<open>ValueError\<close>
  that the pipeline raised on it: no later file is attempted, and the failures collected
  are not reported.
\<close>

theorem process_folder_batch:
  "(\<not> is_dir fs source \<longrightarrow>
      process_folder fs source dest =
        ([], Inl (ValueError ''Source path is not a valid directory''))) \<and>
   (is_dir fs source \<and> can_make fs dest \<and> listing fs source = Inr names \<and>
    (\<forall>f \<in> set (svg_names names). \<not> rejected fs (path_join source f)) \<longrightarrow>
      attempted (fst (process_folder fs source dest)) =
        map (path_join source) (svg_names names) \<and>
      snd (process_folder fs source dest) =
        (let n = length (filter (fails fs source dest) (svg_names names))
         in if n = 0 then Inr ()
            else Inl (ValueError (''Failed to process '' @ decimal n @ '' files'')))) \<and>
   (is_dir fs source \<and> can_make fs dest \<and> listing fs source = Inr (before @ f # after) \<and>
    suffix ''.svg'' f \<and> rejected fs (path_join source f) \<and>
    (\<forall>g \<in> set (svg_names before). \<not> rejected fs (path_join source g)) \<longrightarrow>
      attempted (fst (process_folder fs source dest)) =
        map (path_join source) (svg_names before @ [f]) \<and>
      snd (process_folder fs source dest) =
        Inl (ValueError ''invalid literal for int() with base 16''))"
proof (intro conjI impI)
  assume "\<not> is_dir fs source"
  then show "process_folder fs source dest =
        ([], Inl (ValueError ''Source path is not a valid directory''))"
    by (simp add: process_folder_def)
next
  assume h: "is_dir fs source \<and> can_make fs dest \<and> listing fs source = Inr names \<and>
    (\<forall>f \<in> set (svg_names names). \<not> rejected fs (path_join source f))"
  then obtain evs errs where
    l: "process_files fs source dest names [] = (evs, Inr errs)"
    and a: "attempted evs = map (path_join source) (svg_names names)"
    and e: "map fst errs = filter (fails fs source dest) (svg_names names)"
    using process_files_all [of names fs source dest "[]"] by auto
  from e have n: "length (filter (fails fs source dest) (svg_names names)) = length errs"
    by (metis length_map)
  from h l a show "attempted (fst (process_folder fs source dest)) =
        map (path_join source) (svg_names names)"
    by (simp add: process_folder_def)
  from h l show "snd (process_folder fs source dest) =
        (let n = length (filter (fails fs source dest) (svg_names names))
         in if n = 0 then Inr ()
            else Inl (ValueError (''Failed to process '' @ decimal n @ '' files'')))"
    unfolding n by (simp add: process_folder_def Let_def)
next
  assume h: "is_dir fs source \<and> can_make fs dest \<and>
    listing fs source = Inr (before @ f # after) \<and>
    suffix ''.svg'' f \<and> rejected fs (path_join source f) \<and>
    (\<forall>g \<in> set (svg_names before). \<not> rejected fs (path_join source g))"
  then obtain evs where
    l: "process_files fs source dest (before @ f # after) [] = (evs, Inl invalid_literal)"
    and a: "attempted evs = map (path_join source) (svg_names before @ [f])"
    using process_files_rejected [of f fs source before dest after "[]"] by auto
  from h l a show "attempted (fst (process_folder fs source dest)) =
        map (path_join source) (svg_names before @ [f])"
    by (simp add: process_folder_def)
  from h l show "snd (process_folder fs source dest) =
        Inl (ValueError ''invalid literal for int() with base 16'')"
    by (simp add: process_folder_def invalid_literal_def)
qed

theorem process_folder_batch_witness:
  "is_dir example_fs ''in'' \<and> can_make example_fs ''out'' \<and>
   listing example_fs ''in'' = Inr [''a.svg'', ''notes.txt'', ''b.svg'', ''c.svg''] \<and>
   list_all (\<lambda>f. \<not> rejected example_fs (path_join ''in'' f))
     (svg_names [''a.svg'', ''notes.txt'', ''b.svg'', ''c.svg'']) \<and>
   attempted (fst (process_folder example_fs ''in'' ''out'')) =
     [''in/a.svg'', ''in/b.svg'', ''in/c.svg''] \<and>
   snd (process_folder example_fs ''in'' ''out'') =
     Inl (ValueError ''Failed to process 2 files'') \<and>
   process_folder example_fs ''nowhere'' ''out'' =
     ([], Inl (ValueError ''Source path is not a valid directory'')) \<and>
   is_dir rejecting_fs ''in'' \<and> can_make rejecting_fs ''out'' \<and>
   listing rejecting_fs ''in'' = Inr ([''a.svg''] @ ''x.svg'' # [''z.svg'']) \<and>
   suffix ''.svg'' ''x.svg'' \<and> rejected rejecting_fs (path_join ''in'' ''x.svg'') \<and>
   list_all (\<lambda>g. \<not> rejected rejecting_fs (path_join ''in'' g)) (svg_names [''a.svg'']) \<and>
   attempted (fst (process_folder rejecting_fs ''in'' ''out'')) = [''in/a.svg'', ''in/x.svg''] \<and>
   snd (process_folder rejecting_fs ''in'' ''out'') =
     Inl (ValueError ''invalid literal for int() with base 16'')"
proof -
  let ?names = "[''a.svg'', ''notes.txt'', ''b.svg'', ''c.svg'']"
  have 1: "is_dir example_fs ''in''" and 2: "can_make example_fs ''out''"
    and 3: "listing example_fs ''in'' = Inr ?names"
    and 4: "list_all (\<lambda>f. \<not> rejected example_fs (path_join ''in'' f)) (svg_names ?names)"
    and 5: "\<not> is_dir example_fs ''nowhere''"
    by code_simp+
  from 4 have h4: "\<forall>f \<in> set (svg_names ?names). \<not> rejected example_fs (path_join ''in'' f)"
    by (simp only: list_all_iff)
  have v: "map (path_join ''in'') (svg_names ?names) = [''in/a.svg'', ''in/b.svg'', ''in/c.svg'']"
    by code_simp
  have w: "(let n = length (filter (fails example_fs ''in'' ''out'') (svg_names ?names))
         in if n = 0 then Inr ()
            else Inl (ValueError (''Failed to process '' @ decimal n @ '' files''))) =
      Inl (ValueError ''Failed to process 2 files'')"
    by code_simp
  have r1: "is_dir rejecting_fs ''in''" and r2: "can_make rejecting_fs ''out''"
    and r3: "listing rejecting_fs ''in'' = Inr ([''a.svg''] @ ''x.svg'' # [''z.svg''])"
    and r4: "suffix ''.svg'' ''x.svg''"
    and r5: "rejected rejecting_fs (path_join ''in'' ''x.svg'')"
    and r6: "list_all (\<lambda>g. \<not> rejected rejecting_fs (path_join ''in'' g)) (svg_names [''a.svg''])"
    by code_simp+
  from r6 have h6: "\<forall>g \<in> set (svg_names [''a.svg'']). \<not> rejected rejecting_fs (path_join ''in'' g)"
    by (simp only: list_all_iff)
  have x: "map (path_join ''in'') (svg_names [''a.svg''] @ [''x.svg'']) = [''in/a.svg'', ''in/x.svg'']"
    by code_simp
  from process_folder_batch [of example_fs "''in''" "''out''" ?names] 1 2 3 h4
  have "attempted (fst (process_folder example_fs ''in'' ''out'')) =
      [''in/a.svg'', ''in/b.svg'', ''in/c.svg'']"
    and "snd (process_folder example_fs ''in'' ''out'') =
      Inl (ValueError ''Failed to process 2 files'')"
    unfolding v w by blast+
  moreover from process_folder_batch [of example_fs "''nowhere''" "''out''"] 5
  have "process_folder example_fs ''nowhere'' ''out'' =
     ([], Inl (ValueError ''Source path is not a valid directory''))"
    by blast
  moreover from process_folder_batch
    [of rejecting_fs "''in''" "''out''" _ "[''a.svg'']" "''x.svg''" "[''z.svg'']"] r1 r2 r3 r4 r5 h6
  have "attempted (fst (process_folder rejecting_fs ''in'' ''out'')) = [''in/a.svg'', ''in/x.svg'']"
    and "snd (process_folder rejecting_fs ''in'' ''out'') =
      Inl (ValueError ''invalid literal for int() with base 16'')"
    unfolding x by blast+
  ultimately show ?thesis
    using 1 2 3 4 r1 r2 r3 r4 r5 r6 by blast
qed

text \<open>
  The claim C8 as it was written has every file attempted, and the aggregate error
  raised when a failure was collected, in every valid source directory. The loop catches
  \<open>IOError\<close> and \<open>UnicodeDecodeError\<close> only. In this folder the first file is unreadable and
  its failure is collected; the second holds \<open>fill="#FFF"\<close>, on which the pipeline raises
  the \<open>ValueError\<close> of \<open>int\<close>; that exception leaves the loop, the third file is never
  opened, and the error raised is not the aggregate one.
\<close>

theorem rejected_file_ends_batch:
  \<open>is_dir rejecting_fs ''in'' \<and>
   listing rejecting_fs ''in'' = Inr [''a.svg'', ''x.svg'', ''z.svg''] \<and>
   stored rejecting_fs ''in/a.svg'' = Unreadable \<and>
   stored rejecting_fs ''in/x.svg'' = Text ''<path fill="#FFF"/>'' \<and>
   stored rejecting_fs ''in/z.svg'' = Text ''<path fill="black"/>'' \<and>
   attempted (fst (process_folder rejecting_fs ''in'' ''out'')) = [''in/a.svg'', ''in/x.svg''] \<and>
   process_folder rejecting_fs ''in'' ''out'' =
     ([Made ''out'', Opened ''in/a.svg'', Opened ''in/x.svg''],
      Inl (ValueError ''invalid literal for int() with base 16''))\<close>
  by code_simp

end
